theory Spec2Isabelle
  imports Complex_Main
begin

section \<open>Errors and the external scalar field\<close>

text \<open>
  Every \<^verbatim>\<open>throw\<close> of the sources and every failure of the JavaScript runtime that
  the sources can run into (a method call on \<^verbatim>\<open>undefined\<close>, \<^verbatim>\<open>reduce\<close> of an empty
  array without an initial value) is a value of \<open>error\<close>; a fallible function returns
  \<open>error + 'a\<close>, with \<open>Inl\<close> for the error.
\<close>

datatype error =
    TypeError
  | InverseOfZero
  | LengthMismatch
  | SolutionNotZero nat
  | RemainderNotZero nat
  | InvalidPublicInputs
  | PairingCheckFailed

text \<open>
  The scalar type \<^verbatim>\<open>Fr\<close> comes from the package \<^verbatim>\<open>@kevincharm/blstoise\<close>, which is
  not part of the sources. It is a parameter of the model: any type \<open>'a\<close> of class
  \<open>field\<close>. \<^verbatim>\<open>add\<close>, \<^verbatim>\<open>sub\<close>, \<^verbatim>\<open>mul\<close>, \<^verbatim>\<open>neg\<close>, \<^verbatim>\<open>exp\<close>, \<^verbatim>\<open>equals\<close>, \<^verbatim>\<open>Fr.zero()\<close>,
  \<^verbatim>\<open>Fr.one()\<close> are \<open>+\<close>, \<open>-\<close>, \<open>*\<close>, unary \<open>-\<close>, \<open>^\<close>, \<open>=\<close>, \<open>0\<close>, \<open>1\<close>, and \<^verbatim>\<open>new Fr(n)\<close>
  for a non-negative integer \<open>n\<close> is \<open>of_nat n\<close>.
\<close>

text \<open>
  Modelled from the spec: \<^verbatim>\<open>Fr.inv\<close> of the external field package. The spec's
  interface of the field says of the inverse that it "fails for the zero element".
\<close>

definition Fr_inv :: "'a::field \<Rightarrow> error + 'a" where
  "Fr_inv x = (if x = 0 then Inl InverseOfZero else Inr (inverse x))"

text \<open>Sequencing of fallible steps, and two array idioms of the sources.\<close>

definition ebind :: "error + 'b \<Rightarrow> ('b \<Rightarrow> error + 'c) \<Rightarrow> error + 'c" where
  "ebind m f = (case m of Inl e \<Rightarrow> Inl e | Inr x \<Rightarrow> f x)"

text \<open>\<^verbatim>\<open>xs.map(f)\<close> where \<open>f\<close> may throw: the first failure is the result.\<close>

fun map_err :: "('b \<Rightarrow> error + 'c) \<Rightarrow> 'b list \<Rightarrow> error + 'c list" where
  "map_err f [] = Inr []"
| "map_err f (x # xs) =
     (case f x of
        Inl e \<Rightarrow> Inl e
      | Inr y \<Rightarrow> (case map_err f xs of Inl e \<Rightarrow> Inl e | Inr ys \<Rightarrow> Inr (y # ys)))"

text \<open>
  \<^verbatim>\<open>xs.reduce((acc, p) => f(acc, p))\<close> with no initial value: a \<^verbatim>\<open>TypeError\<close> on the
  empty array, else the left fold that starts from the first element.
\<close>

definition reduce1 :: "('b \<Rightarrow> 'b \<Rightarrow> 'b) \<Rightarrow> 'b list \<Rightarrow> error + 'b" where
  "reduce1 f xs = (case xs of [] \<Rightarrow> Inl TypeError | y # ys \<Rightarrow> Inr (foldl f y ys))"

section \<open>Polynomial algebra (poly.ts)\<close>

text \<open>A polynomial is the list of its coefficients, the constant term first.\<close>

definition zeroPoly :: "nat \<Rightarrow> 'a::field list" where
  "zeroPoly degree = replicate degree 0"

definition addPolys :: "'a::field list \<Rightarrow> 'a list \<Rightarrow> 'a list" where
  "addPolys lhs rhs =
    (let len = max (length lhs) (length rhs);
         result = replicate len 0;
         result = fold (\<lambda>i result. result[i := result ! i + lhs ! i]) [0..<length lhs] result;
         result = fold (\<lambda>i result. result[i := result ! i + rhs ! i]) [0..<length rhs] result
     in result)"

definition subPolys :: "'a::field list \<Rightarrow> 'a list \<Rightarrow> 'a list" where
  "subPolys lhs rhs =
    (let len = max (length lhs) (length rhs);
         result = map (\<lambda>i. if i < length lhs then lhs ! i else 0) [0..<len];
         result = fold (\<lambda>i result. result[i := result ! i - rhs ! i]) [0..<length rhs] result
     in result)"

text \<open>
  \<^verbatim>\<open>lhs.length + rhs.length - 1\<close> is \<open>-1\<close> for two empty arrays, and \<^verbatim>\<open>Array.from\<close>
  makes the empty array of a negative length: the truncating subtraction of \<open>nat\<close>.
\<close>

definition mulPolys :: "'a::field list \<Rightarrow> 'a list \<Rightarrow> 'a list" where
  "mulPolys lhs rhs =
    (let len = length lhs + length rhs - 1;
         result = replicate len 0
     in fold (\<lambda>i result.
          fold (\<lambda>j result. result[i + j := result ! (i + j) + lhs ! i * rhs ! j])
            [0..<length rhs] result)
        [0..<length lhs] result)"

definition evalPoly :: "'a::field list \<Rightarrow> 'a \<Rightarrow> 'a" where
  "evalPoly p x = foldl (\<lambda>acc (coeff, i). acc + coeff * x ^ i) 0 (zip p [0..<length p])"

subsection \<open>Lengths of the results\<close>

lemma length_fold_upd:
  "length (fold (\<lambda>i r. r[f i := g i r]) js r) = length r"
  by (induction js arbitrary: r) simp_all

lemma length_addPolys: "length (addPolys lhs rhs) = max (length lhs) (length rhs)"
  by (simp add: addPolys_def Let_def length_fold_upd)

lemma length_subPolys: "length (subPolys lhs rhs) = max (length lhs) (length rhs)"
  by (simp add: subPolys_def Let_def length_fold_upd)

lemma length_mulPolys_inner:
  "length (fold (\<lambda>j r. r[i + j := r ! (i + j) + c j]) js r) = length r"
  by (induction js arbitrary: r) simp_all

lemma length_mulPolys_outer:
  "length (fold (\<lambda>i r. fold (\<lambda>j r. r[i + j := r ! (i + j) + c i j]) js r) ks r) = length r"
  by (induction ks arbitrary: r) (simp_all add: length_mulPolys_inner)

lemma length_mulPolys: "length (mulPolys lhs rhs) = length lhs + length rhs - 1"
  by (simp add: mulPolys_def Let_def length_mulPolys_outer)

subsection \<open>Long division\<close>

text \<open>
  The loop of \<^verbatim>\<open>divPolys\<close>. \<^verbatim>\<open>remainder.at(-1)\<close> and \<^verbatim>\<open>rhs.at(-1)\<close> are \<^verbatim>\<open>undefined\<close>
  on an empty array, and the method call on them is a \<^verbatim>\<open>TypeError\<close>. The index
  \<open>pos\<close> is inside \<open>result\<close> on every path from \<^verbatim>\<open>divPolys\<close>.
\<close>

function divPolys_loop ::
  "'a::field list \<Rightarrow> 'a list \<Rightarrow> 'a list \<Rightarrow> error + ('a list \<times> 'a list)" where
  "divPolys_loop rhs result remainder =
    (if length rhs \<le> length remainder then
       (if remainder = [] \<or> rhs = [] then Inl TypeError
        else case Fr_inv (last rhs) of
          Inl e \<Rightarrow> Inl e
        | Inr rinv \<Rightarrow>
            (let leadingFactor = last remainder * rinv;
                 pos = length remainder - length rhs;
                 result = result[pos := leadingFactor];
                 spent = zeroPoly pos @ [leadingFactor]
             in divPolys_loop rhs result
                  (butlast (subPolys remainder (mulPolys rhs spent)))))
     else Inr (result, remainder))"
  by pat_completeness auto
termination
  by (relation "measure (\<lambda>(rhs, result, remainder). length remainder)")
     (auto simp: length_subPolys length_mulPolys zeroPoly_def)

definition divPolys :: "'a::field list \<Rightarrow> 'a list \<Rightarrow> error + ('a list \<times> 'a list)" where
  "divPolys lhs rhs =
    (let len = length lhs + 1 - length rhs;
         result = replicate len 0
     in divPolys_loop rhs result lhs)"

text \<open>
  The loop of \<^verbatim>\<open>zpoly\<close> runs \<open>p\<close> down from \<^verbatim>\<open>result.length - 2\<close> as \<open>i\<close> runs up:
  \<open>p = length xs - 1 - i\<close>.
\<close>

definition zpoly :: "'a::field list \<Rightarrow> 'a list" where
  "zpoly xs =
    (let n = length xs;
         result = (replicate (n + 1) 0)[n := 1]
     in fold (\<lambda>i result.
          (let p = n - 1 - i;
               result = result[p := 0]
           in fold (\<lambda>j result. result[j := result ! j - result ! (j + 1) * xs ! i])
                [p..<n] result))
        [0..<n] result)"

text \<open>
  \<^verbatim>\<open>interpolate\<close>: the numerators are the quotients of the root polynomial by
  \<open>x - xs\<^sub>i\<close>; \<^verbatim>\<open>invDenValues\<close> takes the inverse of every denominator, and fails
  where one is zero.
\<close>

definition interpolate :: "'a::field list \<Rightarrow> 'a list \<Rightarrow> error + 'a list" where
  "interpolate xs ys =
    (if length xs \<noteq> length ys then Inl LengthMismatch
     else
       (let root = zpoly xs in
        ebind (map_err (\<lambda>i. ebind (divPolys root [- (xs ! i), 1]) (\<lambda>(q, r). Inr q))
                 [0..<length xs])
          (\<lambda>numerators.
            (let denominators = map (\<lambda>i. evalPoly (numerators ! i) (xs ! i)) [0..<length xs]
             in ebind (map_err Fr_inv denominators)
                  (\<lambda>invDenValues.
                    Inr (fold (\<lambda>i r.
                           (let ySlice = ys ! i * invDenValues ! i
                            in fold (\<lambda>j r.
                                 if numerators ! i ! j \<noteq> 0 \<and> ys ! i \<noteq> 0
                                 then r[j := r ! j + numerators ! i ! j * ySlice]
                                 else r)
                               [0..<length xs] r))
                         [0..<length xs] (replicate (length xs) 0)))))))"

text \<open>
  \<^verbatim>\<open>transpose\<close> reads \<^verbatim>\<open>matrix[0].length\<close>, a \<^verbatim>\<open>TypeError\<close> on the empty matrix.
  On a ragged matrix (a row shorter than row 0) the source stores \<^verbatim>\<open>undefined\<close>
  in the result, and the first arithmetic on that entry is a \<^verbatim>\<open>TypeError\<close>; the
  model raises it here, since a list of field elements has no such entry.
\<close>

definition transpose_matrix :: "'b list list \<Rightarrow> error + 'b list list" where
  "transpose_matrix matrix =
    (if matrix = [] then Inl TypeError
     else
       (let m = length matrix;
            n = length (matrix ! 0)
        in if \<exists>row \<in> set matrix. length row < n then Inl TypeError
           else Inr (map (\<lambda>i. map (\<lambda>j. matrix ! j ! i) [0..<m]) [0..<n])))"

section \<open>Quadratic arithmetic programmes (qap.ts)\<close>

definition tPoly :: "nat \<Rightarrow> 'a::field list" where
  "tPoly degree = fold (\<lambda>i t. mulPolys t [- of_nat i, 1]) [1..<Suc degree] [1]"

text \<open>
  The fields \<^verbatim>\<open>l\<close>, \<^verbatim>\<open>u\<close>, \<^verbatim>\<open>v\<close>, \<^verbatim>\<open>w\<close> of the interface \<^verbatim>\<open>QAP\<close>; the number \<^verbatim>\<open>l\<close> of
  public inputs is a natural number.
\<close>

record 'a QAP =
  qap_l :: nat
  qap_u :: "'a list list"
  qap_v :: "'a list list"
  qap_w :: "'a list list"

definition fromR1csToQap ::
  "nat \<Rightarrow> 'a::field list list \<Rightarrow> 'a list list \<Rightarrow> 'a list list \<Rightarrow> error + 'a QAP" where
  "fromR1csToQap l A B C =
    ebind (transpose_matrix A) (\<lambda>A_t.
    ebind (transpose_matrix B) (\<lambda>B_t.
    ebind (transpose_matrix C) (\<lambda>C_t.
      if A_t = [] then Inl TypeError
      else
        (let xs = map (\<lambda>i. of_nat (i + 1)) [0..<length (A_t ! 0)] in
         ebind (map_err (\<lambda>row. interpolate xs row) A_t) (\<lambda>Upolys.
         ebind (map_err (\<lambda>row. interpolate xs row) B_t) (\<lambda>Vpolys.
         ebind (map_err (\<lambda>row. interpolate xs row) C_t) (\<lambda>Wpolys.
           Inr \<lparr> qap_l = l, qap_u = Upolys, qap_v = Vpolys, qap_w = Wpolys \<rparr>)))))))"

text \<open>
  One step of the reductions of \<^verbatim>\<open>computeSolutionPoly\<close>:
  \<^verbatim>\<open>addPolys(acc, mulPolys([witness[i]], row))\<close>. Beyond the end of the witness
  \<^verbatim>\<open>witness[i]\<close> is \<^verbatim>\<open>undefined\<close>: \<^verbatim>\<open>mulPolys\<close> calls its \<^verbatim>\<open>mul\<close> (a \<^verbatim>\<open>TypeError\<close>)
  unless the row is empty, in which case the product is the empty array.
\<close>

definition scaledRow :: "'a::field list \<Rightarrow> nat \<Rightarrow> 'a list \<Rightarrow> error + 'a list" where
  "scaledRow witness i row =
    (if i < length witness then Inr (mulPolys [witness ! i] row)
     else if row = [] then Inr []
     else Inl TypeError)"

fun combineRows :: "'a::field list \<Rightarrow> 'a list \<Rightarrow> ('a list \<times> nat) list \<Rightarrow> error + 'a list" where
  "combineRows witness acc [] = Inr acc"
| "combineRows witness acc ((row, i) # rest) =
     (case scaledRow witness i row of
        Inl e \<Rightarrow> Inl e
      | Inr sr \<Rightarrow> combineRows witness (addPolys acc sr) rest)"

definition computeSolutionPoly ::
  "'a::field list \<Rightarrow> 'a QAP \<Rightarrow> error + ('a list \<times> 'a list \<times> 'a list)" where
  "computeSolutionPoly witness qap =
    ebind (combineRows witness [] (zip (qap_u qap) [0..<length (qap_u qap)])) (\<lambda>au.
    ebind (combineRows witness [] (zip (qap_v qap) [0..<length (qap_v qap)])) (\<lambda>av.
    ebind (combineRows witness [] (zip (qap_w qap) [0..<length (qap_w qap)])) (\<lambda>aw.
      (let ht = subPolys (mulPolys au av) aw in
       if qap_u qap = [] then Inl TypeError
       else
         (case find (\<lambda>i. evalPoly ht (of_nat i) \<noteq> 0) [1..<Suc (length (qap_u qap ! 0))] of
            Some i \<Rightarrow> Inl (SolutionNotZero i)
          | None \<Rightarrow> Inr (au, av, ht))))))"

definition computeDivisorPoly :: "'a::field list \<Rightarrow> 'a list \<Rightarrow> error + 'a list" where
  "computeDivisorPoly ht t =
    ebind (divPolys ht t) (\<lambda>(h, remainder).
      (case find (\<lambda>x. remainder ! x \<noteq> 0) [0..<length remainder] of
         Some x \<Rightarrow> Inl (RemainderNotZero x)
       | None \<Rightarrow> Inr h))"

section \<open>The external groups and the pairing check\<close>

text \<open>
  Modelled from the spec: the point types \<^verbatim>\<open>PointG1\<close>, \<^verbatim>\<open>PointG2\<close> and
  \<^verbatim>\<open>validatePairing\<close> of the external package. The spec's interface asks of each
  group "a fixed generator, scalar multiplication by a field element, add, negate",
  and of the pairing check that it "returns whether the multi-pairing product is the
  target group's identity". Both groups are cyclic of the order of the scalar field,
  so a point is represented by its scalar with respect to the generator, and the
  bilinear, non-degenerate pairing of \<open>p G\<^sub>1\<close> and \<open>q G\<^sub>2\<close> by the product \<open>p * q\<close> in
  the exponent of the target group's generator: a product of pairings is the identity
  iff the sum of these products is zero.
\<close>

datatype 'a PointG1 = PointG1 'a
datatype 'a PointG2 = PointG2 'a

definition G1_generator :: "'a::field PointG1" where
  "G1_generator = PointG1 1"

definition G2_generator :: "'a::field PointG2" where
  "G2_generator = PointG2 1"

fun G1_mul :: "'a::field PointG1 \<Rightarrow> 'a \<Rightarrow> 'a PointG1" where
  "G1_mul (PointG1 p) k = PointG1 (p * k)"

fun G2_mul :: "'a::field PointG2 \<Rightarrow> 'a \<Rightarrow> 'a PointG2" where
  "G2_mul (PointG2 p) k = PointG2 (p * k)"

fun G1_add :: "'a::field PointG1 \<Rightarrow> 'a PointG1 \<Rightarrow> 'a PointG1" where
  "G1_add (PointG1 p) (PointG1 q) = PointG1 (p + q)"

fun G2_add :: "'a::field PointG2 \<Rightarrow> 'a PointG2 \<Rightarrow> 'a PointG2" where
  "G2_add (PointG2 p) (PointG2 q) = PointG2 (p + q)"

fun G1_neg :: "'a::field PointG1 \<Rightarrow> 'a PointG1" where
  "G1_neg (PointG1 p) = PointG1 (- p)"

fun pairing_exponent :: "'a::field PointG1 \<times> 'a PointG2 \<Rightarrow> 'a" where
  "pairing_exponent (PointG1 p, PointG2 q) = p * q"

definition validatePairing :: "'a::field PointG1 list \<Rightarrow> 'a PointG2 list \<Rightarrow> bool" where
  "validatePairing ps qs = (sum_list (map pairing_exponent (zip ps qs)) = 0)"

section \<open>Setup, prove and verify (groth16.ts)\<close>

record 'a TrustedSetup =
  power_ts :: nat
  tauG1 :: "'a PointG1 list"
  tauG2 :: "'a PointG2 list"
  alphaG1 :: "'a PointG1"
  betaG1 :: "'a PointG1"
  betaG2 :: "'a PointG2"
  gammaG2 :: "'a PointG2"
  deltaG1 :: "'a PointG1"
  deltaG2 :: "'a PointG2"
  cTauPublicG1 :: "'a PointG1 list"
  cTauPrivateG1 :: "'a PointG1 list"
  tTauInvDeltaG1 :: "'a PointG1 list"

record 'a VerificationKey =
  vk_alphaG1 :: "'a PointG1"
  vk_betaG2 :: "'a PointG2"
  vk_gammaG2 :: "'a PointG2"
  vk_deltaG2 :: "'a PointG2"
  vk_cTauPublicG1 :: "'a PointG1 list"

text \<open>\<^verbatim>\<open>xs[i]\<close> followed by a method call or a property access.\<close>

definition elemAt :: "'b list \<Rightarrow> nat \<Rightarrow> error + 'b" where
  "elemAt xs i = (if i < length xs then Inr (xs ! i) else Inl TypeError)"

text \<open>
  The function \<^verbatim>\<open>setup\<close> of the source (the name is a keyword here). The samples of
  \<^verbatim>\<open>randomFr()\<close> are parameters, in the order the source draws them.
\<close>

definition trustedSetup ::
  "'a::field QAP \<Rightarrow> 'a \<Rightarrow> 'a \<Rightarrow> 'a \<Rightarrow> 'a \<Rightarrow> 'a \<Rightarrow> error + 'a TrustedSetup" where
  "trustedSetup qap tau alpha beta gamma delta =
    (if qap_u qap = [] then Inl TypeError
     else
       (let degree = length (qap_u qap ! 0);
            G1 = G1_generator;
            G2 = G2_generator;
            tauG1 = map (\<lambda>i. G1_mul G1 (tau ^ i)) [0..<degree];
            tauG2 = map (\<lambda>i. G2_mul G2 (tau ^ i)) [0..<degree];
            alphaG1 = G1_mul G1 alpha;
            betaG1 = G1_mul G1 beta;
            betaG2 = G2_mul G2 beta;
            gammaG2 = G2_mul G2 gamma;
            deltaG1 = G1_mul G1 delta;
            deltaG2 = G2_mul G2 delta;
            betaU = map (\<lambda>uPoly. map (\<lambda>x. x * beta) uPoly) (qap_u qap);
            alphaV = map (\<lambda>vPoly. map (\<lambda>x. x * alpha) vPoly) (qap_v qap)
        in
        ebind (map_err (\<lambda>i.
                 ebind (elemAt betaU i) (\<lambda>bu.
                 ebind (elemAt alphaV i) (\<lambda>av.
                   Inr (G1_mul G1 (evalPoly (addPolys (addPolys bu av) (qap_w qap ! i)) tau)))))
               [0..<length (qap_w qap)]) (\<lambda>cG1.
        ebind (Fr_inv gamma) (\<lambda>invGamma.
          (let cTauPublicG1 = map (\<lambda>p. G1_mul p invGamma) (take (qap_l qap + 1) cG1) in
           ebind (Fr_inv delta) (\<lambda>invDelta.
             (let cTauPrivateG1 = map (\<lambda>p. G1_mul p invDelta) (drop (qap_l qap + 1) cG1);
                  tx = tPoly degree;
                  tTau = evalPoly tx tau;
                  tTauInvDeltaG1 = map (\<lambda>ptau. G1_mul (G1_mul ptau tTau) invDelta) tauG1
              in Inr \<lparr> power_ts = degree, tauG1 = tauG1, tauG2 = tauG2, alphaG1 = alphaG1,
                       betaG1 = betaG1, betaG2 = betaG2, gammaG2 = gammaG2,
                       deltaG1 = deltaG1, deltaG2 = deltaG2,
                       cTauPublicG1 = cTauPublicG1, cTauPrivateG1 = cTauPrivateG1,
                       tTauInvDeltaG1 = tTauInvDeltaG1 \<rparr>)))))))"

text \<open>
  The folds of \<^verbatim>\<open>prove\<close> and \<^verbatim>\<open>verify\<close>. In \<open>prove\<close> the samples \<open>r\<close> and \<open>s\<close> of
  \<^verbatim>\<open>randomFr()\<close> are parameters, and the optional \<^verbatim>\<open>shouldCheckProof\<close> is \<open>False\<close>
  when the caller omits it.
  \<open>scalarsFoldG1 points scalars\<close> is
  \<^verbatim>\<open>scalars.map((x, i) => points[i].mul(x.value)).reduce((acc, p) => acc.add(p))\<close>,
  \<open>scalarsFoldG2\<close> the same in the second group, and \<open>pointsFoldG1 points scalars\<close> is
  \<^verbatim>\<open>points.map((p, i) => p.mul(scalars[i].value)).reduce((acc, p) => acc.add(p))\<close>.
\<close>

definition scalarsFoldG1 :: "'a::field PointG1 list \<Rightarrow> 'a list \<Rightarrow> error + 'a PointG1" where
  "scalarsFoldG1 points scalars =
    ebind (map_err (\<lambda>(x, i). ebind (elemAt points i) (\<lambda>p. Inr (G1_mul p x)))
             (zip scalars [0..<length scalars]))
      (reduce1 G1_add)"

definition scalarsFoldG2 :: "'a::field PointG2 list \<Rightarrow> 'a list \<Rightarrow> error + 'a PointG2" where
  "scalarsFoldG2 points scalars =
    ebind (map_err (\<lambda>(x, i). ebind (elemAt points i) (\<lambda>p. Inr (G2_mul p x)))
             (zip scalars [0..<length scalars]))
      (reduce1 G2_add)"

definition pointsFoldG1 :: "'a::field PointG1 list \<Rightarrow> 'a list \<Rightarrow> error + 'a PointG1" where
  "pointsFoldG1 points scalars =
    ebind (map_err (\<lambda>(p, i). ebind (elemAt scalars i) (\<lambda>x. Inr (G1_mul p x)))
             (zip points [0..<length points]))
      (reduce1 G1_add)"

definition prove ::
  "'a::field TrustedSetup \<Rightarrow> 'a QAP \<Rightarrow> 'a list \<Rightarrow> bool \<Rightarrow> 'a \<Rightarrow> 'a \<Rightarrow>
     error + (('a PointG1 \<times> 'a PointG1 \<times> 'a PointG2) \<times> 'a VerificationKey)" where
  "prove ts qap witness shouldCheckProof r s =
    (let preparedWitness = 1 # witness in
     ebind (computeSolutionPoly preparedWitness qap) (\<lambda>(au, av, ht).
     ebind (scalarsFoldG1 (tauG1 ts) au) (\<lambda>sumA.
       (let A = G1_add (G1_add (alphaG1 ts) sumA) (G1_mul (deltaG1 ts) r) in
        ebind (scalarsFoldG1 (tauG1 ts) av) (\<lambda>sumBG1.
          (let BG1 = G1_add (G1_add (betaG1 ts) sumBG1) (G1_mul (deltaG1 ts) s) in
           ebind (scalarsFoldG2 (tauG2 ts) av) (\<lambda>sumBG2.
             (let BG2 = G2_add (G2_add (betaG2 ts) sumBG2) (G2_mul (deltaG2 ts) s) in
              ebind (computeDivisorPoly ht (tPoly (length (qap_u qap ! 0)))) (\<lambda>h.
              ebind (scalarsFoldG1 (tTauInvDeltaG1 ts) h) (\<lambda>htTauG1.
              ebind (scalarsFoldG1 (cTauPrivateG1 ts) (drop (qap_l qap + 1) preparedWitness))
                (\<lambda>sumC.
                (let negRsDelta = G1_neg (G1_mul (deltaG1 ts) (r * s));
                     C = G1_add (G1_add (G1_add (G1_add sumC htTauG1) (G1_mul A s))
                           (G1_mul BG1 r)) negRsDelta;
                     prf = (A, C, BG2)
                 in
                 ebind (pointsFoldG1 (cTauPublicG1 ts) preparedWitness)
                   (\<lambda>publicInputsSumG1.
                     if shouldCheckProof \<and>
                        \<not> validatePairing [G1_neg A, alphaG1 ts, publicInputsSumG1, C]
                             [BG2, betaG2 ts, gammaG2 ts, deltaG2 ts]
                     then Inl PairingCheckFailed
                     else Inr (prf,
                       \<lparr> vk_alphaG1 = alphaG1 ts, vk_betaG2 = betaG2 ts,
                         vk_gammaG2 = gammaG2 ts, vk_deltaG2 = deltaG2 ts,
                         vk_cTauPublicG1 = cTauPublicG1 ts \<rparr>))))))))))))))"

definition verify ::
  "('a::field PointG1 \<times> 'a PointG1 \<times> 'a PointG2) \<Rightarrow> 'a list \<Rightarrow> 'a VerificationKey \<Rightarrow>
     error + bool" where
  "verify prf publicInputs vk =
    (case prf of (A, C, BG2) \<Rightarrow>
      (let preparedPublicInputs = 1 # publicInputs in
       if length preparedPublicInputs \<noteq> length (vk_cTauPublicG1 vk)
       then Inl InvalidPublicInputs
       else
         ebind (pointsFoldG1 (vk_cTauPublicG1 vk) preparedPublicInputs)
           (\<lambda>publicInputsSumG1.
             Inr (validatePairing [G1_neg A, vk_alphaG1 vk, publicInputsSumG1, C]
                    [BG2, vk_betaG2 vk, vk_gammaG2 vk, vk_deltaG2 vk]))))"

text \<open>
  The pipeline of the test "compute and verify proof": the QAP of the R1CS, the
  setup, the proof without the self-check, and the verification against
  \<^verbatim>\<open>witness.slice(0, l)\<close> with the verification key that \<^verbatim>\<open>prove\<close> returns.
\<close>

definition compute_and_verify_proof ::
  "nat \<Rightarrow> 'a::field list list \<Rightarrow> 'a list list \<Rightarrow> 'a list list \<Rightarrow> 'a list \<Rightarrow>
     'a \<Rightarrow> 'a \<Rightarrow> 'a \<Rightarrow> 'a \<Rightarrow> 'a \<Rightarrow> 'a \<Rightarrow> 'a \<Rightarrow> error + bool" where
  "compute_and_verify_proof l A B C witness tau alpha beta gamma delta r s =
    ebind (fromR1csToQap l A B C) (\<lambda>qap.
    ebind (trustedSetup qap tau alpha beta gamma delta) (\<lambda>ts.
    ebind (prove ts qap witness False r s) (\<lambda>(prf, vk).
      verify prf (take l witness) vk)))"

section \<open>Notions of the statements\<close>

text \<open>
  The coefficient of \<open>x\<^sup>i\<close> of the mathematical polynomial that a list stores: zero
  beyond the stored length. Two lists store the same polynomial iff their \<open>coeff\<close>
  agree everywhere, whatever their trailing zeros.
\<close>

definition coeff :: "'a::zero list \<Rightarrow> nat \<Rightarrow> 'a" where
  "coeff p i = (if i < length p then p ! i else 0)"

text \<open>The product of the linear factors \<open>x - c\<close>, built with \<open>mulPolys\<close>.\<close>

definition linearProduct :: "'a::field list \<Rightarrow> 'a list" where
  "linearProduct cs = fold (\<lambda>c t. mulPolys t [- c, 1]) cs [1]"

text \<open>The scalar that represents a point.\<close>

fun dlog1 :: "'a PointG1 \<Rightarrow> 'a" where
  "dlog1 (PointG1 p) = p"

fun dlog2 :: "'a PointG2 \<Rightarrow> 'a" where
  "dlog2 (PointG2 p) = p"

text \<open>
  The dot product of a row of an R1CS matrix with the witness vector, and the R1CS
  relation of the spec: for every constraint row \<open>k\<close>,
  \<open>(A\<^sub>k \<cdot> s) * (B\<^sub>k \<cdot> s) = C\<^sub>k \<cdot> s\<close>. The sources do not compute it: it is
  the condition on the inputs under which the spec promises a proof.
\<close>

definition r1cs_dot :: "'a::field list \<Rightarrow> 'a list \<Rightarrow> 'a" where
  "r1cs_dot row s = (\<Sum>j<length row. row ! j * s ! j)"

definition r1cs_satisfied ::
  "'a::field list list \<Rightarrow> 'a list list \<Rightarrow> 'a list list \<Rightarrow> 'a list \<Rightarrow> bool" where
  "r1cs_satisfied A B C s =
     list_all (\<lambda>k. r1cs_dot (A ! k) s * r1cs_dot (B ! k) s = r1cs_dot (C ! k) s) [0..<length A]"

section \<open>Coefficients and evaluation of the polynomial operations\<close>

lemma foldl_evalPoly_aux:
  "n = k + length p \<Longrightarrow>
   foldl (\<lambda>acc (c, i). acc + c * x ^ i) a (zip p [k..<n]) =
     a + (\<Sum>i<length p. p ! i * (x::'a::field) ^ (k + i))"
proof (induction p arbitrary: a k)
  case Nil
  then show ?case by simp
next
  case (Cons c p)
  have "[k..<n] = k # [Suc k..<n]"
    using Cons.prems by (intro upt_conv_Cons) simp
  moreover have "n = Suc k + length p"
    using Cons.prems by simp
  ultimately show ?case
    using Cons.IH [of "Suc k" "a + c * x ^ k"]
    by (simp add: sum.lessThan_Suc_shift add.assoc del: sum.lessThan_Suc)
qed

lemma evalPoly_sum: "evalPoly p x = (\<Sum>i<length p. p ! i * x ^ i)"
  using foldl_evalPoly_aux [of "length p" 0 p x 0] by (simp add: evalPoly_def)

lemma evalPoly_coeff:
  assumes "length p \<le> n"
  shows "evalPoly p x = (\<Sum>i<n. coeff p i * x ^ i)"
proof -
  have "(\<Sum>i<n. coeff p i * x ^ i) = (\<Sum>i\<in>{..<length p}. coeff p i * x ^ i)"
    using assms by (intro sum.mono_neutral_right) (auto simp: coeff_def)
  then show ?thesis
    by (simp add: evalPoly_sum coeff_def)
qed

lemma fold_add_at:
  assumes "\<forall>j\<in>set js. f j < length r" "k < length r"
  shows "fold (\<lambda>j r. r[f j := r ! f j + g j]) js r ! k =
           r ! k + (\<Sum>j\<leftarrow>js. if f j = k then g j else (0::'a::comm_monoid_add))"
  using assms
proof (induction js arbitrary: r)
  case Nil
  then show ?case by simp
next
  case (Cons j js)
  then show ?case
    by (simp add: nth_list_update add.assoc)
qed

lemma sum_list_upt_delta:
  "(\<Sum>j\<leftarrow>[0..<n]. if j = k then g j else (0::'a::comm_monoid_add)) = (if k < n then g k else 0)"
  by (simp add: interv_sum_list_conv_sum_set_nat)

lemma nth_addPolys:
  assumes "k < max (length p) (length q)"
  shows "addPolys p q ! k = coeff p k + coeff q k"
proof -
  let ?r0 = "replicate (max (length p) (length q)) (0::'a)"
  let ?r1 = "fold (\<lambda>i r. r[i := r ! i + p ! i]) [0..<length p] ?r0"
  have l1: "length ?r1 = max (length p) (length q)"
    by (simp add: length_fold_upd)
  have "?r1 ! k = ?r0 ! k + (\<Sum>j\<leftarrow>[0..<length p]. if j = k then p ! j else 0)"
    using assms by (intro fold_add_at) auto
  also have "\<dots> = coeff p k"
    using assms by (simp only: sum_list_upt_delta coeff_def nth_replicate add_0_left)
  finally have r1: "?r1 ! k = coeff p k" .
  have "fold (\<lambda>i r. r[i := r ! i + q ! i]) [0..<length q] ?r1 ! k
      = ?r1 ! k + (\<Sum>j\<leftarrow>[0..<length q]. if j = k then q ! j else 0)"
    using assms l1 by (intro fold_add_at) auto
  also have "\<dots> = coeff p k + coeff q k"
    by (simp only: r1 sum_list_upt_delta coeff_def)
  finally show ?thesis
    by (simp only: addPolys_def Let_def)
qed

lemma coeff_addPolys: "coeff (addPolys p q) k = coeff p k + coeff q k"
proof (cases "k < max (length p) (length q)")
  case True
  then show ?thesis
    using nth_addPolys [OF True] by (simp add: coeff_def [of "addPolys p q"] length_addPolys)
next
  case False
  then show ?thesis
    by (auto simp: coeff_def length_addPolys)
qed

lemma nth_subPolys:
  assumes "k < max (length p) (length q)"
  shows "subPolys p q ! k = coeff p k - coeff q k"
proof -
  let ?r0 = "map (\<lambda>i. if i < length p then p ! i else 0) [0..<max (length p) (length q)]"
  have eq: "(\<lambda>i r. r[i := r ! i - q ! i]) = (\<lambda>i r. r[i := r ! i + (- (q ! i))])"
    by (simp add: fun_eq_iff)
  have r0: "?r0 ! k = coeff p k"
    using assms by (simp add: coeff_def)
  have "fold (\<lambda>i r. r[i := r ! i + (- (q ! i))]) [0..<length q] ?r0 ! k
      = ?r0 ! k + (\<Sum>j\<leftarrow>[0..<length q]. if j = k then - (q ! j) else 0)"
    using assms by (intro fold_add_at) auto
  also have "\<dots> = coeff p k - coeff q k"
    by (simp only: r0 sum_list_upt_delta) (simp add: coeff_def)
  finally show ?thesis
    by (simp only: subPolys_def Let_def eq)
qed

lemma coeff_subPolys: "coeff (subPolys p q) k = coeff p k - coeff q k"
proof (cases "k < max (length p) (length q)")
  case True
  then show ?thesis
    using nth_subPolys [OF True] by (simp add: coeff_def [of "subPolys p q"] length_subPolys)
next
  case False
  then show ?thesis
    by (auto simp: coeff_def length_subPolys)
qed


lemma mulPolys_inner_nth:
  assumes "\<forall>j<n. i + j < length r" "k < length r"
  shows "fold (\<lambda>j r. r[i + j := r ! (i + j) + c j]) [0..<n] r ! k =
           r ! k + (if i \<le> k \<and> k - i < n then c (k - i) else (0::'a::comm_monoid_add))"
proof -
  have "fold (\<lambda>j r. r[i + j := r ! (i + j) + c j]) [0..<n] r ! k =
          r ! k + (\<Sum>j\<leftarrow>[0..<n]. if i + j = k then c j else 0)"
    using assms by (intro fold_add_at) auto
  moreover have "(\<Sum>j\<leftarrow>[0..<n]. if i + j = k then c j else 0) =
                 (\<Sum>j\<leftarrow>[0..<n]. if j = k - i then (if i \<le> k then c j else 0) else 0)"
    by (intro arg_cong [where f = sum_list] map_cong) auto
  ultimately show ?thesis
    by (simp only: sum_list_upt_delta) auto
qed

lemma mulPolys_outer_nth:
  assumes "\<forall>i\<in>set ks. \<forall>j<n. i + j < length r" "k < length r"
  shows "fold (\<lambda>i r. fold (\<lambda>j r. r[i + j := r ! (i + j) + c i j]) [0..<n] r) ks r ! k =
           r ! k + (\<Sum>i\<leftarrow>ks. if i \<le> k \<and> k - i < n then c i (k - i) else (0::'a::comm_monoid_add))"
  using assms
proof (induction ks arbitrary: r)
  case Nil
  then show ?case by simp
next
  case (Cons i ks)
  let ?r = "fold (\<lambda>j r. r[i + j := r ! (i + j) + c i j]) [0..<n] r"
  have len: "length ?r = length r"
    by (rule length_mulPolys_inner)
  have "?r ! k = r ! k + (if i \<le> k \<and> k - i < n then c i (k - i) else 0)"
    using Cons.prems by (intro mulPolys_inner_nth) auto
  moreover have "fold (\<lambda>i r. fold (\<lambda>j r. r[i + j := r ! (i + j) + c i j]) [0..<n] r) ks ?r ! k =
      ?r ! k + (\<Sum>i\<leftarrow>ks. if i \<le> k \<and> k - i < n then c i (k - i) else 0)"
    using Cons.prems len by (intro Cons.IH) auto
  ultimately show ?case
    by (simp add: add.assoc)
qed

lemma coeff_mulPolys: "coeff (mulPolys p q) k = (\<Sum>i\<le>k. coeff p i * coeff q (k - i))"
proof (cases "k < length p + length q - 1")
  case True
  let ?c = "\<lambda>i j. p ! i * q ! j"
  have "mulPolys p q ! k = replicate (length p + length q - 1) 0 ! k +
       (\<Sum>i\<leftarrow>[0..<length p]. if i \<le> k \<and> k - i < length q then ?c i (k - i) else 0)"
    unfolding mulPolys_def Let_def
    using True by (intro mulPolys_outer_nth) auto
  also have "\<dots> = (\<Sum>i\<in>{0..<length p}. if i \<le> k \<and> k - i < length q then ?c i (k - i) else 0)"
    using True by (simp add: interv_sum_list_conv_sum_set_nat)
  also have "\<dots> = (\<Sum>i\<in>{0..<length p} \<inter> {..k}. coeff p i * coeff q (k - i))"
    by (subst sum.inter_restrict [OF finite_atLeastLessThan])
       (auto intro!: sum.cong simp: coeff_def)
  also have "\<dots> = (\<Sum>i\<le>k. coeff p i * coeff q (k - i))"
    by (intro sum.mono_neutral_left) (auto simp: coeff_def)
  finally show ?thesis
    using True by (simp add: coeff_def [of "mulPolys p q"] length_mulPolys)
next
  case False
  have "coeff p i * coeff q (k - i) = 0" if "i \<le> k" for i
    using False that by (auto simp: coeff_def)
  then have "(\<Sum>i\<le>k. coeff p i * coeff q (k - i)) = 0"
    by (intro sum.neutral) auto
  then show ?thesis
    using False by (simp add: coeff_def [of "mulPolys p q"] length_mulPolys)
qed

lemma evalPoly_addPolys: "evalPoly (addPolys p q) x = evalPoly p x + evalPoly q x"
proof -
  let ?n = "max (length p) (length q)"
  have "evalPoly (addPolys p q) x = (\<Sum>i<?n. coeff (addPolys p q) i * x ^ i)"
    by (intro evalPoly_coeff) (simp add: length_addPolys)
  also have "\<dots> = (\<Sum>i<?n. coeff p i * x ^ i) + (\<Sum>i<?n. coeff q i * x ^ i)"
    by (simp add: coeff_addPolys distrib_right sum.distrib)
  also have "\<dots> = evalPoly p x + evalPoly q x"
    by (simp add: evalPoly_coeff [of p ?n] evalPoly_coeff [of q ?n])
  finally show ?thesis .
qed

lemma evalPoly_subPolys: "evalPoly (subPolys p q) x = evalPoly p x - evalPoly q x"
proof -
  let ?n = "max (length p) (length q)"
  have "evalPoly (subPolys p q) x = (\<Sum>i<?n. coeff (subPolys p q) i * x ^ i)"
    by (intro evalPoly_coeff) (simp add: length_subPolys)
  also have "\<dots> = (\<Sum>i<?n. coeff p i * x ^ i) - (\<Sum>i<?n. coeff q i * x ^ i)"
    by (simp add: coeff_subPolys left_diff_distrib sum_subtractf)
  also have "\<dots> = evalPoly p x - evalPoly q x"
    by (simp add: evalPoly_coeff [of p ?n] evalPoly_coeff [of q ?n])
  finally show ?thesis .
qed

lemma evalPoly_mulPolys: "evalPoly (mulPolys p q) x = evalPoly p x * evalPoly q x"
proof -
  let ?m = "length p" and ?n = "length q"
  have "evalPoly p x * evalPoly q x =
        (\<Sum>i\<le>?m. coeff p i * x ^ i) * (\<Sum>j\<le>?n. coeff q j * x ^ j)"
    by (simp add: evalPoly_coeff [of p "Suc ?m"] evalPoly_coeff [of q "Suc ?n"]
          lessThan_Suc_atMost)
  also have "\<dots> = (\<Sum>r\<le>?m + ?n. (\<Sum>k\<le>r. coeff p k * coeff q (r - k)) * x ^ r)"
    by (intro polynomial_product) (auto simp: coeff_def)
  also have "\<dots> = (\<Sum>r<Suc (?m + ?n). coeff (mulPolys p q) r * x ^ r)"
    by (simp only: coeff_mulPolys lessThan_Suc_atMost)
  also have "\<dots> = evalPoly (mulPolys p q) x"
    by (intro evalPoly_coeff [symmetric]) (simp add: length_mulPolys)
  finally show ?thesis by simp
qed

declare divPolys_loop.simps [simp del]

subsection \<open>First properties of evaluation and division\<close>

lemma evalPoly_map_scale: "evalPoly (map (\<lambda>c. c * a) p) x = a * evalPoly p x"
  by (simp add: evalPoly_sum sum_distrib_left mult_ac)

text \<open>
  Claim C9. Evaluation is additive: the value of \<open>addPolys p q\<close> at \<open>x\<close> is the sum of
  the values of \<open>p\<close> and \<open>q\<close> at \<open>x\<close>. In particular the combined polynomial that the
  setup evaluates once at \<open>tau\<close>, \<open>beta * u\<^sub>i + alpha * v\<^sub>i + w\<^sub>i\<close> (built with
  \<open>map\<close> and \<open>addPolys\<close> as in the source), has the value
  \<open>beta * u\<^sub>i(tau) + alpha * v\<^sub>i(tau) + w\<^sub>i(tau)\<close>.
\<close>

theorem evalPoly_addPolys_additive:
  "evalPoly (addPolys p q) x = evalPoly p x + evalPoly q x \<and>
   evalPoly (addPolys (addPolys (map (\<lambda>c. c * beta) u_i) (map (\<lambda>c. c * alpha) v_i)) w_i) tau =
     beta * evalPoly u_i tau + alpha * evalPoly v_i tau + evalPoly w_i tau"
  by (simp add: evalPoly_addPolys evalPoly_map_scale)

lemma divPolys_short: "length p < length q \<Longrightarrow> divPolys p q = Inr ([], p)"
  by (simp add: divPolys_def divPolys_loop.simps [of q _ p])

text \<open>
  Claim C10. A dividend shorter than the divisor: \<open>divPolys\<close> returns without error the
  empty quotient and the dividend itself as the remainder. The loop does not run, so
  no inverse is taken: the result does not depend on the divisor's leading
  coefficient (in the witness it is zero).
\<close>

theorem divPolys_shorter_dividend:
  "length p < length q \<Longrightarrow> divPolys p q = Inr ([], p)"
  by (rule divPolys_short)

theorem divPolys_shorter_dividend_witness:
  "length [1, 2 :: rat] < length [0, 0, 0 :: rat] \<and> divPolys [1, 2] [0, 0, 0 :: rat] = Inr ([], [1, 2])"
  using divPolys_shorter_dividend [of "[1, 2 :: rat]" "[0, 0, 0]"] by simp

subsection \<open>The folds over group elements\<close>

lemma map_err_Inr:
  "(\<forall>x\<in>set xs. f x = Inr (g x)) \<Longrightarrow> map_err f xs = Inr (map g xs)"
  by (induction xs) simp_all

lemma zip_upt_nth: "zip xs [0..<length xs] = map (\<lambda>i. (xs ! i, i)) [0..<length xs]"
  by (rule nth_equalityI) simp_all

lemma G1_point_eq: "P = PointG1 (dlog1 P)"
  by (cases P) simp

lemma G2_point_eq: "P = PointG2 (dlog2 P)"
  by (cases P) simp

lemma dlog1_simps [simp]:
  "dlog1 (G1_mul P k) = dlog1 P * k"
  "dlog1 (G1_add P Q) = dlog1 P + dlog1 Q"
  "dlog1 (G1_neg P) = - dlog1 P"
  "dlog1 G1_generator = 1"
  by (cases P; cases Q; simp add: G1_generator_def)+

lemma dlog2_simps [simp]:
  "dlog2 (G2_mul P k) = dlog2 P * k"
  "dlog2 (G2_add P Q) = dlog2 P + dlog2 Q"
  "dlog2 G2_generator = 1"
  by (cases P; cases Q; simp add: G2_generator_def)+

lemma dlog1_foldl: "dlog1 (foldl G1_add P Ps) = dlog1 P + sum_list (map dlog1 Ps)"
  by (induction Ps arbitrary: P) (simp_all add: add.assoc)

lemma dlog2_foldl: "dlog2 (foldl G2_add P Ps) = dlog2 P + sum_list (map dlog2 Ps)"
  by (induction Ps arbitrary: P) (simp_all add: add.assoc)

lemma reduce1_G1:
  assumes "Ps \<noteq> []"
  shows "reduce1 G1_add Ps = Inr (PointG1 (sum_list (map dlog1 Ps)))"
proof -
  obtain Q Qs where Ps: "Ps = Q # Qs"
    using assms by (cases Ps) auto
  have "foldl G1_add Q Qs = PointG1 (dlog1 (foldl G1_add Q Qs))"
    by (rule G1_point_eq)
  also have "\<dots> = PointG1 (sum_list (map dlog1 Ps))"
    by (simp add: dlog1_foldl Ps)
  finally show ?thesis
    by (simp add: reduce1_def Ps)
qed

lemma reduce1_G2:
  assumes "Ps \<noteq> []"
  shows "reduce1 G2_add Ps = Inr (PointG2 (sum_list (map dlog2 Ps)))"
proof -
  obtain Q Qs where Ps: "Ps = Q # Qs"
    using assms by (cases Ps) auto
  have "foldl G2_add Q Qs = PointG2 (dlog2 (foldl G2_add Q Qs))"
    by (rule G2_point_eq)
  also have "\<dots> = PointG2 (sum_list (map dlog2 Ps))"
    by (simp add: dlog2_foldl Ps)
  finally show ?thesis
    by (simp add: reduce1_def Ps)
qed

lemma pointsFoldG1_eq:
  assumes "points \<noteq> []" "length points \<le> length scalars"
  shows "pointsFoldG1 points scalars =
           Inr (PointG1 (\<Sum>i<length points. dlog1 (points ! i) * scalars ! i))"
proof -
  let ?g = "\<lambda>(p, i). G1_mul p (scalars ! i)"
  have "map_err (\<lambda>(p, i). ebind (elemAt scalars i) (\<lambda>x. Inr (G1_mul p x)))
          (zip points [0..<length points]) = Inr (map ?g (zip points [0..<length points]))"
    using assms by (intro map_err_Inr) (auto simp: elemAt_def ebind_def dest!: set_zip_rightD)
  moreover have "map ?g (zip points [0..<length points]) \<noteq> []"
    using assms by simp
  moreover have "sum_list (map dlog1 (map ?g (zip points [0..<length points]))) =
                 (\<Sum>i<length points. dlog1 (points ! i) * scalars ! i)"
    by (simp add: zip_upt_nth comp_def interv_sum_list_conv_sum_set_nat atLeast0LessThan)
  ultimately show ?thesis
    by (simp add: pointsFoldG1_def ebind_def reduce1_G1)
qed

lemma scalarsFoldG1_eq:
  assumes "scalars \<noteq> []" "length scalars \<le> length points"
  shows "scalarsFoldG1 points scalars =
           Inr (PointG1 (\<Sum>i<length scalars. dlog1 (points ! i) * scalars ! i))"
proof -
  let ?g = "\<lambda>(x, i). G1_mul (points ! i) x"
  have "map_err (\<lambda>(x, i). ebind (elemAt points i) (\<lambda>p. Inr (G1_mul p x)))
          (zip scalars [0..<length scalars]) = Inr (map ?g (zip scalars [0..<length scalars]))"
    using assms by (intro map_err_Inr) (auto simp: elemAt_def ebind_def dest!: set_zip_rightD)
  moreover have "map ?g (zip scalars [0..<length scalars]) \<noteq> []"
    using assms by simp
  moreover have "sum_list (map dlog1 (map ?g (zip scalars [0..<length scalars]))) =
                 (\<Sum>i<length scalars. dlog1 (points ! i) * scalars ! i)"
    by (simp add: zip_upt_nth comp_def interv_sum_list_conv_sum_set_nat atLeast0LessThan)
  ultimately show ?thesis
    by (simp add: scalarsFoldG1_def ebind_def reduce1_G1)
qed

lemma scalarsFoldG2_eq:
  assumes "scalars \<noteq> []" "length scalars \<le> length points"
  shows "scalarsFoldG2 points scalars =
           Inr (PointG2 (\<Sum>i<length scalars. dlog2 (points ! i) * scalars ! i))"
proof -
  let ?g = "\<lambda>(x, i). G2_mul (points ! i) x"
  have "map_err (\<lambda>(x, i). ebind (elemAt points i) (\<lambda>p. Inr (G2_mul p x)))
          (zip scalars [0..<length scalars]) = Inr (map ?g (zip scalars [0..<length scalars]))"
    using assms by (intro map_err_Inr) (auto simp: elemAt_def ebind_def dest!: set_zip_rightD)
  moreover have "map ?g (zip scalars [0..<length scalars]) \<noteq> []"
    using assms by simp
  moreover have "sum_list (map dlog2 (map ?g (zip scalars [0..<length scalars]))) =
                 (\<Sum>i<length scalars. dlog2 (points ! i) * scalars ! i)"
    by (simp add: zip_upt_nth comp_def interv_sum_list_conv_sum_set_nat atLeast0LessThan)
  ultimately show ?thesis
    by (simp add: scalarsFoldG2_def ebind_def reduce1_G2)
qed

text \<open>
  Claim C8. \<open>verify\<close> throws iff the number of public inputs is not the length of the
  verification key's public sequence minus one (in the integers), and the error is
  then the one of the length check. On every input of the right length it throws
  nothing and returns the result of the pairing check of
  \<open>[-A, alpha, publicInputsSum, C]\<close> against \<open>[B, beta, gamma, delta]\<close>, whatever the
  proof and the key hold, where \<open>publicInputsSum\<close> is the point that the fold of the
  key's public sequence against \<open>1 # publicInputs\<close> returns: the sum of the points
  \<open>cTauPublicG1\<^sub>i\<close> scaled by these scalars.
\<close>

theorem verify_throws_iff_wrong_input_count:
  "((\<exists>e. verify (A, C, BG2) publicInputs vk = Inl e) \<longleftrightarrow>
      int (length publicInputs) \<noteq> int (length (vk_cTauPublicG1 vk)) - 1) \<and>
   (int (length publicInputs) \<noteq> int (length (vk_cTauPublicG1 vk)) - 1 \<longrightarrow>
      verify (A, C, BG2) publicInputs vk = Inl InvalidPublicInputs) \<and>
   (int (length publicInputs) = int (length (vk_cTauPublicG1 vk)) - 1 \<longrightarrow>
      pointsFoldG1 (vk_cTauPublicG1 vk) (1 # publicInputs) =
        Inr (PointG1 (\<Sum>i<length (vk_cTauPublicG1 vk).
               dlog1 (vk_cTauPublicG1 vk ! i) * (1 # publicInputs) ! i)) \<and>
      verify (A, C, BG2) publicInputs vk =
        Inr (validatePairing
               [G1_neg A, vk_alphaG1 vk,
                PointG1 (\<Sum>i<length (vk_cTauPublicG1 vk).
                  dlog1 (vk_cTauPublicG1 vk ! i) * (1 # publicInputs) ! i),
                C]
               [BG2, vk_betaG2 vk, vk_gammaG2 vk, vk_deltaG2 vk]))"
proof (cases "int (length publicInputs) = int (length (vk_cTauPublicG1 vk)) - 1")
  case True
  then have len: "length (vk_cTauPublicG1 vk) = Suc (length publicInputs)"
    by simp
  then have ne: "vk_cTauPublicG1 vk \<noteq> []"
    by auto
  have fold: "pointsFoldG1 (vk_cTauPublicG1 vk) (1 # publicInputs) =
        Inr (PointG1 (\<Sum>i<length (vk_cTauPublicG1 vk).
               dlog1 (vk_cTauPublicG1 vk ! i) * (1 # publicInputs) ! i))"
    using len by (intro pointsFoldG1_eq [OF ne]) simp
  have "verify (A, C, BG2) publicInputs vk =
        Inr (validatePairing
               [G1_neg A, vk_alphaG1 vk,
                PointG1 (\<Sum>i<length (vk_cTauPublicG1 vk).
                  dlog1 (vk_cTauPublicG1 vk ! i) * (1 # publicInputs) ! i),
                C]
               [BG2, vk_betaG2 vk, vk_gammaG2 vk, vk_deltaG2 vk])"
    unfolding verify_def Let_def prod.case fold ebind_def sum.case
    using len by simp
  then show ?thesis
    using True fold by simp
next
  case False
  then have "length (vk_cTauPublicG1 vk) \<noteq> Suc (length publicInputs)"
    by auto
  then have "verify (A, C, BG2) publicInputs vk = Inl InvalidPublicInputs"
    by (simp add: verify_def Let_def)
  then show ?thesis
    using False by simp
qed

lemma verify_examples:
  "verify (PointG1 2, PointG1 3, PointG2 5) [7 :: rat]
        \<lparr> vk_alphaG1 = PointG1 1, vk_betaG2 = PointG2 1, vk_gammaG2 = PointG2 1,
          vk_deltaG2 = PointG2 1, vk_cTauPublicG1 = [PointG1 1, PointG1 4] \<rparr> = Inr False"
  "verify (PointG1 2, PointG1 (- 20), PointG2 5) [7 :: rat]
        \<lparr> vk_alphaG1 = PointG1 1, vk_betaG2 = PointG2 1, vk_gammaG2 = PointG2 1,
          vk_deltaG2 = PointG2 1, vk_cTauPublicG1 = [PointG1 1, PointG1 4] \<rparr> = Inr True"
  "verify (PointG1 2, PointG1 (- 20), PointG2 5) [7, 8 :: rat]
        \<lparr> vk_alphaG1 = PointG1 1, vk_betaG2 = PointG2 1, vk_gammaG2 = PointG2 1,
          vk_deltaG2 = PointG2 1, vk_cTauPublicG1 = [PointG1 1, PointG1 4] \<rparr> =
     Inl InvalidPublicInputs"
  "validatePairing [G1_neg (PointG1 2), PointG1 1, PointG1 (1 * 1 + 4 * 7), PointG1 3]
     [PointG2 5, PointG2 1, PointG2 1, PointG2 (1 :: rat)] = False"
  by code_simp+

theorem verify_throws_iff_wrong_input_count_witness:
  "int (length [7 :: rat]) = int (length [PointG1 1, PointG1 (4 :: rat)]) - 1 \<and>
   pointsFoldG1 [PointG1 1, PointG1 4] (1 # [7 :: rat]) = Inr (PointG1 29) \<and>
   verify (PointG1 2, PointG1 3, PointG2 5) [7 :: rat]
        \<lparr> vk_alphaG1 = PointG1 1, vk_betaG2 = PointG2 1, vk_gammaG2 = PointG2 1,
          vk_deltaG2 = PointG2 1, vk_cTauPublicG1 = [PointG1 1, PointG1 4] \<rparr> = Inr False \<and>
   verify (PointG1 2, PointG1 (- 20), PointG2 5) [7 :: rat]
        \<lparr> vk_alphaG1 = PointG1 1, vk_betaG2 = PointG2 1, vk_gammaG2 = PointG2 1,
          vk_deltaG2 = PointG2 1, vk_cTauPublicG1 = [PointG1 1, PointG1 4] \<rparr> = Inr True \<and>
   verify (PointG1 2, PointG1 (- 20), PointG2 5) [7, 8 :: rat]
        \<lparr> vk_alphaG1 = PointG1 1, vk_betaG2 = PointG2 1, vk_gammaG2 = PointG2 1,
          vk_deltaG2 = PointG2 1, vk_cTauPublicG1 = [PointG1 1, PointG1 4] \<rparr> =
     Inl InvalidPublicInputs"
  using verify_throws_iff_wrong_input_count [of "PointG1 2" "PointG1 3" "PointG2 5" "[7 :: rat]"
        "\<lparr> vk_alphaG1 = PointG1 1, vk_betaG2 = PointG2 1, vk_gammaG2 = PointG2 1,
          vk_deltaG2 = PointG2 1, vk_cTauPublicG1 = [PointG1 1, PointG1 4] \<rparr>"]
    verify_examples
  by (simp add: lessThan_Suc)

subsection \<open>Coefficients of products with constants, monomials and linear factors\<close>

lemma coeff_Nil [simp]: "coeff [] k = 0"
  by (simp add: coeff_def)

lemma coeff_Cons: "coeff (c # p) k = (if k = 0 then c else coeff p (k - 1))"
  by (cases k) (simp_all add: coeff_def)

lemma coeff_single: "coeff [c] k = (if k = 0 then c else 0)"
  by (simp add: coeff_Cons)

lemma coeff_eq_0: "length p \<le> k \<Longrightarrow> coeff p k = 0"
  by (simp add: coeff_def)

lemma coeff_last: "p \<noteq> [] \<Longrightarrow> coeff p (length p - Suc 0) = last p"
  by (simp add: coeff_def last_conv_nth)

lemma coeff_butlast: "coeff (butlast p) k = (if Suc k < length p then coeff p k else 0)"
  by (auto simp: coeff_def nth_butlast)

lemma coeff_list_update:
  "i < length p \<Longrightarrow> coeff (p[i := c]) k = (if k = i then c else coeff p k)"
  by (simp add: coeff_def)

lemma coeff_monomial: "coeff (zeroPoly n @ [c]) k = (if k = n then c else 0)"
  by (auto simp: coeff_def zeroPoly_def nth_append)

lemma coeff_replicate_0 [simp]: "coeff (replicate n 0) k = 0"
  by (simp add: coeff_def)

lemma sum_atMost_delta:
  "(\<Sum>i\<le>k. if i = n then f i else (0::'a::comm_monoid_add)) = (if n \<le> (k::nat) then f n else 0)"
proof -
  have "(\<Sum>i\<in>{..k}. if i = n then f i else 0) = (if n \<in> {..k} then f n else 0)"
    by (rule sum.delta) simp
  then show ?thesis by simp
qed

lemma coeff_mulPolys_monomial:
  "coeff (mulPolys p (zeroPoly n @ [c])) k = (if n \<le> k then coeff p (k - n) * c else 0)"
proof -
  have "(\<Sum>i\<le>k. coeff p i * coeff (zeroPoly n @ [c]) (k - i)) =
        (\<Sum>i\<le>k. if i = k - n then (if n \<le> k then coeff p i * c else 0) else 0)"
    by (intro sum.cong) (auto simp: coeff_monomial)
  then show ?thesis
    by (simp add: coeff_mulPolys sum_atMost_delta)
qed

lemma coeff_mulPolys_const: "coeff (mulPolys [c] p) k = c * coeff p k"
proof -
  have "(\<Sum>i\<le>k. coeff [c] i * coeff p (k - i)) =
        (\<Sum>i\<le>k. if i = 0 then c * coeff p k else 0)"
    by (intro sum.cong) (auto simp: coeff_single)
  then show ?thesis
    by (simp add: coeff_mulPolys sum_atMost_delta)
qed

lemma coeff_mulPolys_linear:
  "coeff (mulPolys p [a, b]) k = coeff p k * a + (if k = 0 then 0 else coeff p (k - 1) * b)"
proof (cases k)
  case 0
  then show ?thesis
    by (simp add: coeff_mulPolys coeff_Cons)
next
  case (Suc j)
  have "(\<Sum>i\<le>Suc j. coeff p i * coeff [a, b] (Suc j - i)) =
        (\<Sum>i\<le>Suc j. (if i = Suc j then coeff p i * a else 0) + (if i = j then coeff p i * b else 0))"
    by (intro sum.cong refl) (auto simp: coeff_Cons Suc_diff_le)
  also have "\<dots> = coeff p (Suc j) * a + coeff p j * b"
    by (simp only: sum.distrib sum_atMost_delta) simp
  finally show ?thesis
    by (simp add: coeff_mulPolys Suc)
qed

lemma coeff_mulPolys_zero_left:
  assumes "\<forall>i. coeff p i = 0"
  shows "coeff (mulPolys p q) k = 0"
  by (simp add: coeff_mulPolys assms)

lemma coeff_mulPolys_cong_left:
  assumes "\<forall>i. coeff p' i = coeff p i + coeff d i"
  shows "coeff (mulPolys p' q) k = coeff (mulPolys p q) k + coeff (mulPolys d q) k"
  by (simp add: coeff_mulPolys assms distrib_right sum.distrib)

lemma coeff_monomial_mulPolys:
  "coeff (mulPolys (zeroPoly n @ [c]) p) k = (if n \<le> k then c * coeff p (k - n) else 0)"
proof -
  have "(\<Sum>i\<le>k. coeff (zeroPoly n @ [c]) i * coeff p (k - i)) =
        (\<Sum>i\<le>k. if i = n then c * coeff p (k - i) else 0)"
    by (intro sum.cong) (auto simp: coeff_monomial)
  then show ?thesis
    by (simp add: coeff_mulPolys sum_atMost_delta)
qed

subsection \<open>Correctness of the long division\<close>

lemma Fr_inv_nonzero: "x \<noteq> 0 \<Longrightarrow> Fr_inv x = Inr (inverse x)"
  by (simp add: Fr_inv_def)

lemma divPolys_loop_correct:
  assumes "rhs \<noteq> []" "last rhs \<noteq> 0"
    and "length remainder + 1 - length rhs \<le> length result"
    and "\<forall>i < length remainder + 1 - length rhs. result ! i = 0"
  shows "\<exists>q r. divPolys_loop rhs result remainder = Inr (q, r) \<and>
           length q = length result \<and>
           length r = min (length remainder) (length rhs - 1) \<and>
           (\<forall>i. length remainder + 1 - length rhs \<le> i \<longrightarrow> coeff q i = coeff result i) \<and>
           (\<forall>k. coeff (mulPolys q rhs) k + coeff r k =
                  coeff (mulPolys result rhs) k + coeff remainder k)"
  using assms
proof (induction rhs result remainder rule: divPolys_loop.induct)
  case (1 rhs result remainder)
  show ?case
  proof (cases "length rhs \<le> length remainder")
    case False
    then have "divPolys_loop rhs result remainder = Inr (result, remainder)"
      by (simp add: divPolys_loop.simps [of rhs result remainder])
    moreover have "length remainder = min (length remainder) (length rhs - 1)"
      using False by simp
    ultimately show ?thesis
      by simp
  next
    case True
    define lf where "lf = last remainder * inverse (last rhs)"
    define pos where "pos = length remainder - length rhs"
    define result' where "result' = result[pos := lf]"
    define spent where "spent = zeroPoly pos @ [lf]"
    define S where "S = subPolys remainder (mulPolys rhs spent)"
    define remainder' where "remainder' = butlast S"
    have ne: "remainder \<noteq> []"
      using True "1.prems"(1) by auto
    have inv: "Fr_inv (last rhs) = Inr (inverse (last rhs))"
      using "1.prems"(2) by (rule Fr_inv_nonzero)
    have step: "divPolys_loop rhs result remainder = divPolys_loop rhs result' remainder'"
      using True ne "1.prems"(1) inv
      by (subst divPolys_loop.simps)
         (simp add: Let_def lf_def pos_def result'_def spent_def S_def remainder'_def)
    have pos_lt: "pos < length result"
      using True "1.prems"(3) by (simp add: pos_def)
    have res_pos: "result ! pos = 0"
      using True "1.prems"(4) by (simp add: pos_def)
    have len_S: "length S = length remainder"
      using True "1.prems"(1)
      by (simp add: S_def length_subPolys length_mulPolys spent_def zeroPoly_def pos_def)
    have len_rem': "length remainder' = length remainder - 1"
      by (simp add: remainder'_def len_S)
    have pos': "length remainder' + 1 - length rhs = pos"
      using True ne by (cases remainder) (auto simp: len_rem' pos_def)
    have IH: "\<exists>q r. divPolys_loop rhs result' remainder' = Inr (q, r) \<and>
           length q = length result' \<and>
           length r = min (length remainder') (length rhs - 1) \<and>
           (\<forall>i. length remainder' + 1 - length rhs \<le> i \<longrightarrow> coeff q i = coeff result' i) \<and>
           (\<forall>k. coeff (mulPolys q rhs) k + coeff r k =
                  coeff (mulPolys result' rhs) k + coeff remainder' k)"
      unfolding remainder'_def S_def spent_def result'_def pos_def lf_def
    proof (rule "1.IH" [OF True _ inv refl refl refl refl])
      show "\<not> (remainder = [] \<or> rhs = [])"
        using ne "1.prems"(1) by simp
      show "rhs \<noteq> []" "last rhs \<noteq> 0"
        by (rule "1.prems")+
      show "length (butlast (subPolys remainder (mulPolys rhs (zeroPoly (length remainder - length rhs) @ [last remainder * inverse (last rhs)])))) + 1 - length rhs
            \<le> length (result[length remainder - length rhs := last remainder * inverse (last rhs)])"
        using pos' pos_lt
        by (simp add: remainder'_def S_def spent_def pos_def lf_def)
      show "\<forall>i<length (butlast (subPolys remainder (mulPolys rhs (zeroPoly (length remainder - length rhs) @ [last remainder * inverse (last rhs)])))) + 1 - length rhs.
              result[length remainder - length rhs := last remainder * inverse (last rhs)] ! i = 0"
        using pos' "1.prems"(4) True
        by (simp add: remainder'_def S_def spent_def pos_def lf_def)
    qed
    then obtain q r where qr: "divPolys_loop rhs result' remainder' = Inr (q, r)"
      and len_q: "length q = length result'"
      and len_r: "length r = min (length remainder') (length rhs - 1)"
      and q_hi: "\<forall>i. pos \<le> i \<longrightarrow> coeff q i = coeff result' i"
      and eq: "\<forall>k. coeff (mulPolys q rhs) k + coeff r k =
                  coeff (mulPolys result' rhs) k + coeff remainder' k"
      unfolding pos' by blast
    have "coeff result pos = 0"
      using pos_lt res_pos by (simp add: coeff_def)
    then have res': "\<forall>i. coeff result' i = coeff result i + coeff spent i"
      using pos_lt by (simp add: result'_def spent_def coeff_list_update coeff_monomial)
    have mul': "coeff (mulPolys result' rhs) k =
                coeff (mulPolys result rhs) k + coeff (mulPolys spent rhs) k" for k
      using res' by (rule coeff_mulPolys_cong_left)
    have spent_comm: "coeff (mulPolys spent rhs) k = coeff (mulPolys rhs spent) k" for k
      by (simp add: spent_def coeff_mulPolys_monomial coeff_monomial_mulPolys mult.commute)
    have top: "coeff S (length remainder - 1) = 0"
    proof -
      have "length remainder - 1 - pos = length rhs - 1"
        using True "1.prems"(1) by (cases rhs) (auto simp: pos_def)
      moreover have "pos \<le> length remainder - 1"
        using True "1.prems"(1) by (cases rhs) (auto simp: pos_def)
      ultimately have "coeff (mulPolys rhs spent) (length remainder - 1) = last rhs * lf"
        using "1.prems"(1) by (simp add: spent_def coeff_mulPolys_monomial coeff_last)
      then show ?thesis
        using ne "1.prems"(2) by (simp add: S_def coeff_subPolys coeff_last lf_def)
    qed
    then have top: "coeff S (length remainder - 1) = 0"
      by simp
    have S_coeff: "coeff S k = coeff remainder k - coeff (mulPolys rhs spent) k" for k
      by (simp add: S_def coeff_subPolys)
    have rem'_S: "coeff remainder' k = (if Suc k < length remainder then coeff S k else 0)" for k
      by (simp add: remainder'_def coeff_butlast len_S)
    have "coeff remainder' k = coeff S k" for k
    proof (cases "Suc k < length remainder")
      case True
      then show ?thesis
        by (simp add: rem'_S)
    next
      case False
      then have "k = length remainder - 1 \<or> length S \<le> k"
        by (auto simp: len_S)
      then have "coeff S k = 0"
        using top by (auto simp: coeff_eq_0)
      then show ?thesis
        using False by (simp add: rem'_S)
    qed
    then have rem': "coeff remainder' k = coeff remainder k - coeff (mulPolys rhs spent) k" for k
      by (simp add: S_coeff)
    have "coeff (mulPolys q rhs) k + coeff r k =
          coeff (mulPolys result rhs) k + coeff remainder k" for k
      using eq mul' [of k] spent_comm [of k] rem' [of k] by simp
    moreover have "length r = min (length remainder) (length rhs - 1)"
      using len_r len_rem' True by auto
    moreover have "coeff q i = coeff result i" if "length remainder + 1 - length rhs \<le> i" for i
    proof -
      have "pos < i"
        using that True by (simp add: pos_def)
      then show ?thesis
        using q_hi pos_lt by (simp add: result'_def coeff_list_update)
    qed
    ultimately show ?thesis
      using qr len_q step by (simp add: result'_def)
  qed
qed


lemma divPolys_correct:
  assumes "q \<noteq> []" "last q \<noteq> 0"
  shows "\<exists>quotient remainder. divPolys p q = Inr (quotient, remainder) \<and>
           length quotient = length p + 1 - length q \<and>
           length remainder = min (length p) (length q - 1) \<and>
           (\<forall>k. coeff p k = coeff (mulPolys quotient q) k + coeff remainder k)"
proof -
  let ?result = "replicate (length p + 1 - length q) (0::'a)"
  have "\<exists>quotient r. divPolys_loop q ?result p = Inr (quotient, r) \<and>
           length quotient = length ?result \<and>
           length r = min (length p) (length q - 1) \<and>
           (\<forall>i. length p + 1 - length q \<le> i \<longrightarrow> coeff quotient i = coeff ?result i) \<and>
           (\<forall>k. coeff (mulPolys quotient q) k + coeff r k =
                  coeff (mulPolys ?result q) k + coeff p k)"
    using assms by (intro divPolys_loop_correct) simp_all
  then show ?thesis
    by (auto simp: divPolys_def Let_def coeff_mulPolys_zero_left)
qed

text \<open>
  Claim C4. For a non-empty divisor \<open>q\<close> whose leading stored coefficient is invertible
  (not zero), \<open>divPolys p q\<close> returns a quotient and a remainder, and \<open>p\<close> is
  \<open>addPolys (mulPolys quotient q) remainder\<close> as a polynomial: every coefficient agrees,
  the coefficients beyond a stored length counting as zero.
\<close>

theorem divPolys_quotient_remainder:
  assumes "q \<noteq> []" "last q \<noteq> 0"
  shows "\<exists>quotient remainder. divPolys p q = Inr (quotient, remainder) \<and>
           (\<forall>k. coeff p k = coeff (addPolys (mulPolys quotient q) remainder) k)"
  using divPolys_correct [OF assms, of p] by (auto simp: coeff_addPolys)

theorem divPolys_quotient_remainder_witness:
  "[1, 2 :: rat] \<noteq> [] \<and> last [1, 2 :: rat] \<noteq> 0 \<and>
   (\<exists>quotient remainder. divPolys [1, 4] [1, 2 :: rat] = Inr (quotient, remainder) \<and>
      (\<forall>k. coeff [1, 4] k = coeff (addPolys (mulPolys quotient [1, 2]) remainder) k))"
  using divPolys_quotient_remainder [of "[1, 2 :: rat]" "[1, 4]"] by simp

lemma find_upt_None: "find P [a..<b] = None \<longleftrightarrow> (\<forall>x. a \<le> x \<and> x < b \<longrightarrow> \<not> P x)"
  by (auto simp: find_None_iff)

lemma find_upt_Some: "find P [a..<b] = Some x \<Longrightarrow> a \<le> x \<and> x < b \<and> P x"
  by (auto simp: find_Some_iff)

text \<open>
  Claim C7. For a non-empty monic \<open>t\<close>, the division of \<open>ht\<close> by \<open>t\<close> returns a quotient
  \<open>h\<close> and a remainder shorter than \<open>t\<close> with \<open>ht = h * t + remainder\<close>;
  \<open>computeDivisorPoly ht t\<close> throws iff some stored coefficient of that remainder is not
  zero, and returns \<open>h\<close> when all of them are zero.
\<close>

theorem computeDivisorPoly_throws_iff:
  assumes "t \<noteq> []" "last t = 1"
  shows "\<exists>h remainder. divPolys ht t = Inr (h, remainder) \<and>
           length remainder < length t \<and>
           (\<forall>k. coeff ht k = coeff (addPolys (mulPolys h t) remainder) k) \<and>
           ((\<exists>e. computeDivisorPoly ht t = Inl e) \<longleftrightarrow> (\<exists>x < length remainder. remainder ! x \<noteq> 0)) \<and>
           ((\<forall>x < length remainder. remainder ! x = 0) \<longrightarrow> computeDivisorPoly ht t = Inr h)"
proof -
  have "last t \<noteq> 0"
    using assms(2) by simp
  from divPolys_correct [OF assms(1) this, of ht]
  obtain h remainder where div: "divPolys ht t = Inr (h, remainder)"
    and len: "length remainder = min (length ht) (length t - 1)"
    and eq: "\<forall>k. coeff ht k = coeff (mulPolys h t) k + coeff remainder k"
    by blast
  have "length remainder < length t"
    using len assms(1) by (cases t) auto
  moreover have "(\<exists>e. computeDivisorPoly ht t = Inl e) \<longleftrightarrow> (\<exists>x < length remainder. remainder ! x \<noteq> 0)"
  proof (cases "find (\<lambda>x. remainder ! x \<noteq> 0) [0..<length remainder]")
    case None
    have "computeDivisorPoly ht t = Inr h"
      using div None by (simp add: computeDivisorPoly_def ebind_def)
    moreover have "\<not> (\<exists>x < length remainder. remainder ! x \<noteq> 0)"
      using None by (simp add: find_upt_None)
    ultimately show ?thesis
      by simp
  next
    case (Some x)
    have "computeDivisorPoly ht t = Inl (RemainderNotZero x)"
      using div Some by (simp add: computeDivisorPoly_def ebind_def)
    moreover have "\<exists>x < length remainder. remainder ! x \<noteq> 0"
      using find_upt_Some [OF Some] by auto
    ultimately show ?thesis
      by simp
  qed
  moreover have "computeDivisorPoly ht t = Inr h" if "\<forall>x < length remainder. remainder ! x = 0"
  proof -
    have "find (\<lambda>x. remainder ! x \<noteq> 0) [0..<length remainder] = None"
      using that by (simp add: find_upt_None)
    then show ?thesis
      using div by (simp add: computeDivisorPoly_def ebind_def)
  qed
  ultimately show ?thesis
    using div eq by (auto simp: coeff_addPolys)
qed

theorem computeDivisorPoly_throws_iff_witness:
  "[- 1, 1 :: rat] \<noteq> [] \<and> last [- 1, 1 :: rat] = 1 \<and>
   divPolys [- 1, 0, 1] [- 1, 1 :: rat] = Inr ([1, 1], [0]) \<and>
   computeDivisorPoly [- 1, 0, 1] [- 1, 1 :: rat] = Inr [1, 1] \<and>
   computeDivisorPoly [1, 0, 1] [- 1, 1 :: rat] = Inl (RemainderNotZero 0)"
  using computeDivisorPoly_throws_iff [of "[- 1, 1 :: rat]" "[- 1, 0, 1]"]
  by (simp add: computeDivisorPoly_def ebind_def divPolys_def divPolys_loop.simps Fr_inv_def
        zeroPoly_def subPolys_def mulPolys_def Let_def)

subsection \<open>The vanishing polynomial\<close>

lemma tPoly_Suc: "tPoly (Suc m) = mulPolys (tPoly m) [- of_nat (Suc m), 1]"
  by (simp add: tPoly_def)

lemma tPoly_0: "tPoly 0 = [1]"
  by (simp add: tPoly_def)

lemma length_tPoly: "length (tPoly m) = m + 1"
  by (induction m) (simp_all add: tPoly_0 tPoly_Suc length_mulPolys)

lemma coeff_tPoly_top: "coeff (tPoly m :: 'a::field list) m = 1"
proof (induction m)
  case 0
  then show ?case by (simp add: tPoly_0 coeff_single)
next
  case (Suc m)
  have "coeff (tPoly m :: 'a list) (Suc m) = 0"
    by (simp add: coeff_eq_0 length_tPoly)
  then show ?case
    using Suc by (simp add: tPoly_Suc coeff_mulPolys_linear)
qed

lemma last_tPoly: "last (tPoly m) = 1"
proof -
  have "tPoly m \<noteq> ([] :: 'a list)"
    using length_tPoly [of m, where ?'a = 'a] by auto
  then have "last (tPoly m :: 'a list) = coeff (tPoly m) (length (tPoly m :: 'a list) - Suc 0)"
    by (simp add: coeff_last)
  then show ?thesis
    by (simp add: length_tPoly coeff_tPoly_top)
qed

lemma evalPoly_linear: "evalPoly [a, b] x = a + b * x"
  by (simp add: evalPoly_sum lessThan_Suc)

lemma evalPoly_tPoly: "evalPoly (tPoly m) x = (\<Prod>k = 1..m. x - of_nat k)"
proof (induction m)
  case 0
  then show ?case by (simp add: tPoly_0 evalPoly_sum)
next
  case (Suc m)
  then show ?case
    by (simp add: tPoly_Suc evalPoly_mulPolys evalPoly_linear)
qed

text \<open>
  Claim C5. \<open>tPoly m\<close> has \<open>m + 1\<close> stored coefficients, the highest of them the
  field's one (monic of degree \<open>m\<close>), and its roots are exactly the field elements
  \<open>of_nat k\<close> for \<open>k\<close> in \<open>1..m\<close>: the value at each of them is zero, and at every
  other field element it is not. This holds for every \<open>m\<close>, in particular for
  \<open>m \<ge> 1\<close>.
\<close>

theorem tPoly_monic_roots:
  "length (tPoly m :: 'a::field list) = m + 1 \<and> last (tPoly m :: 'a list) = 1 \<and>
   (\<forall>x :: 'a. evalPoly (tPoly m) x = 0 \<longleftrightarrow> (\<exists>k \<in> {1..m}. x = of_nat k))"
  by (auto simp: length_tPoly last_tPoly evalPoly_tPoly)

subsection \<open>The solution polynomials\<close>

lemma combineRows_correct:
  assumes "\<forall>(row, i) \<in> set ps. i < length witness"
  shows "\<exists>r. combineRows witness acc ps = Inr r \<and>
           length r = foldl max (length acc) (map (\<lambda>(row, i). length row) ps) \<and>
           (\<forall>k. coeff r k = coeff acc k + (\<Sum>(row, i)\<leftarrow>ps. witness ! i * coeff row k))"
  using assms
proof (induction ps arbitrary: acc)
  case Nil
  then show ?case by simp
next
  case (Cons p ps)
  obtain row i where p: "p = (row, i)"
    by (cases p)
  have i: "i < length witness"
    using Cons.prems p by simp
  let ?acc = "addPolys acc (mulPolys [witness ! i] row)"
  have "\<exists>r. combineRows witness ?acc ps = Inr r \<and>
           length r = foldl max (length ?acc) (map (\<lambda>(row, i). length row) ps) \<and>
           (\<forall>k. coeff r k = coeff ?acc k + (\<Sum>(row, i)\<leftarrow>ps. witness ! i * coeff row k))"
    using Cons.prems by (intro Cons.IH) simp
  then obtain r where r: "combineRows witness ?acc ps = Inr r"
    and len: "length r = foldl max (length ?acc) (map (\<lambda>(row, i). length row) ps)"
    and co: "\<forall>k. coeff r k = coeff ?acc k + (\<Sum>(row, i)\<leftarrow>ps. witness ! i * coeff row k)"
    by blast
  have "combineRows witness acc (p # ps) = Inr r"
    using r i by (simp add: p scaledRow_def)
  moreover have "length r = foldl max (length acc) (map (\<lambda>(row, i). length row) (p # ps))"
    using len by (simp add: p length_addPolys length_mulPolys)
  moreover have "coeff r k = coeff acc k + (\<Sum>(row, i)\<leftarrow>p # ps. witness ! i * coeff row k)" for k
    using co by (simp add: p coeff_addPolys coeff_mulPolys_const add.assoc)
  ultimately show ?case
    by blast
qed

lemma combineRows_zip:
  assumes "length rows \<le> length witness"
  shows "\<exists>r. combineRows witness [] (zip rows [0..<length rows]) = Inr r \<and>
           length r = foldl max 0 (map length rows) \<and>
           (\<forall>k. coeff r k = (\<Sum>i<length rows. witness ! i * coeff (rows ! i) k))"
proof -
  let ?ps = "zip rows [0..<length rows]"
  have "\<forall>(row, i) \<in> set ?ps. i < length witness"
    using assms by (auto dest!: set_zip_rightD)
  from combineRows_correct [OF this, of "[]"]
  obtain r where r: "combineRows witness [] ?ps = Inr r"
    and len: "length r = foldl max (length ([]::'a list)) (map (\<lambda>(row, i). length row) ?ps)"
    and co: "\<forall>k. coeff r k = coeff [] k + (\<Sum>(row, i)\<leftarrow>?ps. witness ! i * coeff row k)"
    by blast
  have "map (\<lambda>(row, i). length row) ?ps = map length rows"
    by (rule nth_equalityI) simp_all
  then have "length r = foldl max 0 (map length rows)"
    using len by simp
  moreover have "(\<Sum>(row, i)\<leftarrow>?ps. witness ! i * coeff row k) =
                 (\<Sum>i<length rows. witness ! i * coeff (rows ! i) k)" for k
    by (simp add: zip_upt_nth comp_def interv_sum_list_conv_sum_set_nat atLeast0LessThan)
  ultimately show ?thesis
    using r co by simp
qed


lemma foldl_max_const:
  "xs \<noteq> [] \<Longrightarrow> \<forall>x \<in> set xs. x = m \<Longrightarrow> a \<le> m \<Longrightarrow> foldl max a xs = (m::nat)"
proof (induction xs arbitrary: a)
  case Nil
  then show ?case by simp
next
  case (Cons x xs)
  show ?case
  proof (cases "xs = []")
    case True
    then show ?thesis using Cons.prems by (simp add: max_def)
  next
    case False
    then show ?thesis
      using Cons.prems by (simp add: Cons.IH)
  qed
qed


text \<open>
  Claim C6. For a QAP with at least one polynomial in \<open>u\<close> (so that the number \<open>m\<close> of
  evaluation points, the stored length of \<open>u\<^sub>0\<close>, exists) and a witness that has an
  entry for every polynomial of \<open>u\<close>, \<open>v\<close> and \<open>w\<close>: with \<open>au\<close>, \<open>av\<close>, \<open>aw\<close> the
  polynomials \<open>\<Sum> witness\<^sub>i * u\<^sub>i\<close>, \<open>\<Sum> witness\<^sub>i * v\<^sub>i\<close>, \<open>\<Sum> witness\<^sub>i * w\<^sub>i\<close> and
  \<open>ht = au * av - aw\<close> (coefficient by coefficient), \<open>computeSolutionPoly\<close> throws iff
  \<open>ht\<close> is not zero at some point of \<open>1..m\<close>, and returns exactly \<open>(au, av, ht)\<close> when
  it is zero at all of them.
\<close>

theorem computeSolutionPoly_throws_iff:
  assumes "qap_u qap \<noteq> []"
    and "length (qap_u qap) \<le> length witness"
    and "length (qap_v qap) \<le> length witness"
    and "length (qap_w qap) \<le> length witness"
  shows "\<exists>au av aw ht.
    (\<forall>k. coeff au k = (\<Sum>i<length (qap_u qap). witness ! i * coeff (qap_u qap ! i) k)) \<and>
    (\<forall>k. coeff av k = (\<Sum>i<length (qap_v qap). witness ! i * coeff (qap_v qap ! i) k)) \<and>
    (\<forall>k. coeff aw k = (\<Sum>i<length (qap_w qap). witness ! i * coeff (qap_w qap ! i) k)) \<and>
    (\<forall>k. coeff ht k = (\<Sum>i\<le>k. coeff au i * coeff av (k - i)) - coeff aw k) \<and>
    ((\<exists>e. computeSolutionPoly witness qap = Inl e) \<longleftrightarrow>
       (\<exists>k \<in> {1..length (qap_u qap ! 0)}. evalPoly ht (of_nat k) \<noteq> 0)) \<and>
    ((\<forall>k \<in> {1..length (qap_u qap ! 0)}. evalPoly ht (of_nat k) = 0) \<longrightarrow>
       computeSolutionPoly witness qap = Inr (au, av, ht))"
proof -
  obtain au where au: "combineRows witness [] (zip (qap_u qap) [0..<length (qap_u qap)]) = Inr au"
    and cau: "\<forall>k. coeff au k = (\<Sum>i<length (qap_u qap). witness ! i * coeff (qap_u qap ! i) k)"
    using combineRows_zip [OF assms(2)] by blast
  obtain av where av: "combineRows witness [] (zip (qap_v qap) [0..<length (qap_v qap)]) = Inr av"
    and cav: "\<forall>k. coeff av k = (\<Sum>i<length (qap_v qap). witness ! i * coeff (qap_v qap ! i) k)"
    using combineRows_zip [OF assms(3)] by blast
  obtain aw where aw: "combineRows witness [] (zip (qap_w qap) [0..<length (qap_w qap)]) = Inr aw"
    and caw: "\<forall>k. coeff aw k = (\<Sum>i<length (qap_w qap). witness ! i * coeff (qap_w qap ! i) k)"
    using combineRows_zip [OF assms(4)] by blast
  define ht where "ht = subPolys (mulPolys au av) aw"
  let ?m = "length (qap_u qap ! 0)"
  let ?P = "\<lambda>i. evalPoly ht (of_nat i) \<noteq> 0"
  have unfold: "computeSolutionPoly witness qap =
      (case find ?P [1..<Suc ?m] of Some i \<Rightarrow> Inl (SolutionNotZero i) | None \<Rightarrow> Inr (au, av, ht))"
    unfolding ht_def
    using au av aw assms(1) by (simp add: computeSolutionPoly_def ebind_def Let_def del: upt_Suc)
  have cht: "\<forall>k. coeff ht k = (\<Sum>i\<le>k. coeff au i * coeff av (k - i)) - coeff aw k"
    by (simp add: ht_def coeff_subPolys coeff_mulPolys)
  have iff: "(\<exists>e. computeSolutionPoly witness qap = Inl e) \<longleftrightarrow> (\<exists>k \<in> {1..?m}. ?P k)"
  proof (cases "find ?P [1..<Suc ?m]")
    case None
    have "computeSolutionPoly witness qap = Inr (au, av, ht)"
      using None by (simp add: unfold)
    moreover have "\<not> (\<exists>k \<in> {1..?m}. ?P k)"
      using iffD1 [OF find_upt_None None] by auto
    ultimately show ?thesis
      by simp
  next
    case (Some i)
    have "computeSolutionPoly witness qap = Inl (SolutionNotZero i)"
      using Some by (simp add: unfold)
    moreover have "\<exists>k \<in> {1..?m}. ?P k"
      using find_upt_Some [OF Some] by auto
    ultimately show ?thesis
      by simp
  qed
  have ok: "computeSolutionPoly witness qap = Inr (au, av, ht)"
    if "\<forall>k \<in> {1..?m}. evalPoly ht (of_nat k) = 0"
  proof -
    have "find ?P [1..<Suc ?m] = None"
      by (rule iffD2 [OF find_upt_None]) (use that in auto)
    then show ?thesis
      by (simp add: unfold)
  qed
  show ?thesis
    using cau cav caw cht iff ok by blast
qed

theorem computeSolutionPoly_throws_iff_witness:
  "qap_u \<lparr> qap_l = 0, qap_u = [[1], [2 :: rat]], qap_v = [[1], [1]], qap_w = [[6], [0]] \<rparr> \<noteq> [] \<and>
   computeSolutionPoly [1, 1] \<lparr> qap_l = 0, qap_u = [[1], [2 :: rat]], qap_v = [[1], [1]], qap_w = [[6], [0]] \<rparr>
     = Inr ([3], [2], [0]) \<and>
   computeSolutionPoly [1, 1] \<lparr> qap_l = 0, qap_u = [[1], [2 :: rat]], qap_v = [[1], [1]], qap_w = [[5], [0]] \<rparr>
     = Inl (SolutionNotZero 1)"
  using computeSolutionPoly_throws_iff [of "\<lparr> qap_l = 0, qap_u = [[1], [2 :: rat]], qap_v = [[1], [1]], qap_w = [[6], [0]] \<rparr>" "[1, 1]"]
  by (simp add: computeSolutionPoly_def ebind_def scaledRow_def addPolys_def mulPolys_def subPolys_def
        evalPoly_def Let_def)

subsection \<open>The root polynomial of the interpolation\<close>

lemma linearProduct_Nil: "linearProduct [] = [1]"
  by (simp add: linearProduct_def)

lemma linearProduct_snoc: "linearProduct (cs @ [c]) = mulPolys (linearProduct cs) [- c, 1]"
  by (simp add: linearProduct_def)

lemma length_linearProduct: "length (linearProduct cs) = length cs + 1"
  by (induction cs rule: rev_induct) (simp_all add: linearProduct_Nil linearProduct_snoc length_mulPolys)

lemma evalPoly_single: "evalPoly [c] x = c"
  by (simp add: evalPoly_sum)

lemma evalPoly_linearProduct: "evalPoly (linearProduct cs) x = (\<Prod>c\<leftarrow>cs. x - c)"
  by (induction cs rule: rev_induct)
     (simp_all add: linearProduct_Nil linearProduct_snoc evalPoly_mulPolys evalPoly_linear evalPoly_single)

lemma coeff_linearProduct_top: "coeff (linearProduct cs) (length cs) = 1"
proof (induction cs rule: rev_induct)
  case Nil
  then show ?case by (simp add: linearProduct_Nil coeff_single)
next
  case (snoc c cs)
  have "coeff (linearProduct cs) (Suc (length cs)) = 0"
    by (simp add: coeff_eq_0 length_linearProduct)
  then show ?case
    using snoc by (simp add: linearProduct_snoc coeff_mulPolys_linear)
qed

lemma zpoly_inner_nth:
  assumes "n < length r" "k < length r"
  shows "fold (\<lambda>j r. r[j := r ! j - r ! (j + 1) * c]) [p..<n] r ! k =
           (if p \<le> k \<and> k < n then r ! k - r ! (k + 1) * c else r ! k)"
  using assms
proof (induction n arbitrary: k)
  case 0
  then show ?case by simp
next
  case (Suc n)
  show ?case
  proof (cases "p \<le> n")
    case False
    then show ?thesis by auto
  next
    case True
    let ?F = "fold (\<lambda>j r. r[j := r ! j - r ! (j + 1) * c]) [p..<n] r"
    have len: "length ?F = length r"
      by (rule length_fold_upd)
    have F: "?F ! k' = (if p \<le> k' \<and> k' < n then r ! k' - r ! (k' + 1) * c else r ! k')"
      if "k' < length r" for k'
      using Suc.prems that by (intro Suc.IH) simp_all
    have "fold (\<lambda>j r. r[j := r ! j - r ! (j + 1) * c]) [p..<Suc n] r =
          ?F[n := ?F ! n - ?F ! (n + 1) * c]"
      using True by simp
    moreover have "?F ! n = r ! n" "?F ! (n + 1) = r ! (n + 1)"
      using Suc.prems F [of n] F [of "n + 1"] by simp_all
    ultimately show ?thesis
      using Suc.prems F [of k] len True by (auto simp: nth_list_update)
  qed
qed

lemma zpoly_prefix:
  fixes xs :: "'a::field list"
  defines "n \<equiv> length xs"
  assumes pass: "pass = (\<lambda>i result.
            (let p = n - 1 - i; result = result[p := 0]
             in fold (\<lambda>j result. result[j := result ! j - result ! (j + 1) * xs ! i])
                  [p..<n] result))"
    and init: "init = (replicate (n + 1) 0)[n := 1]"
    and "i \<le> n"
  shows "length (fold pass [0..<i] init) = n + 1 \<and>
         (\<forall>k \<le> n. fold pass [0..<i] init ! k =
            (if k < n - i then 0 else coeff (linearProduct (take i xs)) (k - (n - i))))"
  using \<open>i \<le> n\<close>
proof (induction i)
  case 0
  have "length init = n + 1"
    by (simp add: init del: replicate_Suc)
  moreover have "init ! k = (if k < n then 0 else 1)" if "k \<le> n" for k
    using that by (simp add: init nth_list_update del: replicate_Suc)
  ultimately show ?case
    by (simp add: linearProduct_Nil coeff_single)
next
  case (Suc i)
  let ?old = "fold pass [0..<i] init"
  let ?P = "linearProduct (take i xs)"
  define p where "p = n - 1 - i"
  define R where "R = ?old[p := 0]"
  have i: "i < n"
    using Suc.prems by simp
  have len_old: "length ?old = n + 1"
    and old: "\<And>k. k \<le> n \<Longrightarrow> ?old ! k = (if k < n - i then 0 else coeff ?P (k - (n - i)))"
    using Suc.IH i by simp_all
  have p: "p < n - i" "Suc p = n - i" "p < n"
    using i by (simp_all add: p_def)
  have p4: "n - Suc i = p"
    by (simp add: p_def)
  have len_R: "length R = n + 1"
    by (simp add: R_def len_old)
  have R: "R ! k = ?old ! k" if "k \<le> n" for k
    using that old [of p] p len_old by (cases "k = p") (simp_all add: R_def)
  have new: "fold pass [0..<Suc i] init =
             fold (\<lambda>j r. r[j := r ! j - r ! (j + 1) * xs ! i]) [p..<n] R"
    by (simp add: pass Let_def p_def R_def)
  have take: "linearProduct (take (Suc i) xs) = mulPolys ?P [- (xs ! i), 1]"
    using i by (simp add: take_Suc_conv_app_nth linearProduct_snoc n_def)
  have nth: "fold (\<lambda>j r. r[j := r ! j - r ! (j + 1) * xs ! i]) [p..<n] R ! k =
         (if p \<le> k \<and> k < n then R ! k - R ! (k + 1) * xs ! i else R ! k)" if "k \<le> n" for k
    using that len_R by (intro zpoly_inner_nth) simp_all
  have "fold (\<lambda>j r. r[j := r ! j - r ! (j + 1) * xs ! i]) [p..<n] R ! k =
        (if k < p then 0 else coeff (linearProduct (take (Suc i) xs)) (k - p))"
    if kn: "k \<le> n" for k
  proof (cases "k < p")
    case True
    then show ?thesis
      using nth [OF kn] R [OF kn] old [OF kn] p by simp
  next
    case False
    note kp = False
    show ?thesis
    proof (cases "k < n")
      case True
      have "?old ! k = (if k < Suc p then 0 else coeff ?P (k - Suc p))"
        using old [of k] True by (simp add: p(2))
      then have a: "R ! k = (if k = p then 0 else coeff ?P (k - Suc p))"
        using R [of k] True kp by auto
      have e: "Suc k - (n - i) = k - p" "\<not> Suc k < n - i"
        using kp by (simp_all add: p(2) [symmetric])
      have "R ! (k + 1) = ?old ! (k + 1)"
        using R [of "k + 1"] True by simp
      also have "\<dots> = coeff ?P (Suc k - (n - i))"
        using old [of "k + 1"] True e(2) by simp
      finally have b: "R ! (k + 1) = coeff ?P (k - p)"
        by (simp only: e)
      have "k - p - 1 = k - Suc p"
        by simp
      then show ?thesis
        using nth [OF kn] True kp a b
        by (auto simp: take coeff_mulPolys_linear)
    next
      case False
      then have k: "k = n"
        using kn by simp
      have c0: "coeff ?P (Suc i) = 0"
        using i by (simp add: coeff_eq_0 length_linearProduct n_def)
      have d: "n - p = Suc i" "n - (n - i) = i" "\<not> n < n - i" "\<not> n < p"
        using i by (simp_all add: p_def)
      have "fold (\<lambda>j r. r[j := r ! j - r ! (j + 1) * xs ! i]) [p..<n] R ! n = R ! n"
        using nth [of n] by simp
      also have "\<dots> = ?old ! n"
        using R [of n] by simp
      also have "\<dots> = coeff ?P i"
        using old [of n] by (simp only: d le_refl if_False)
      also have "\<dots> = coeff (linearProduct (take (Suc i) xs)) (Suc i)"
        by (simp add: take coeff_mulPolys_linear c0)
      finally show ?thesis
        by (simp only: k d if_False)
    qed
  qed
  moreover have "length (fold (\<lambda>j r. r[j := r ! j - r ! (j + 1) * xs ! i]) [p..<n] R) = n + 1"
    by (simp add: length_fold_upd len_R)
  ultimately show ?case
    unfolding new p4 by blast
qed

lemma zpoly_eq: "zpoly xs = linearProduct xs"
proof (rule nth_equalityI)
  let ?n = "length xs"
  let ?pass = "\<lambda>i result.
            (let p = ?n - 1 - i; result = result[p := 0]
             in fold (\<lambda>j result. result[j := result ! j - result ! (j + 1) * xs ! i])
                  [p..<?n] result)"
  let ?init = "(replicate (?n + 1) (0::'a))[?n := 1]"
  have z: "zpoly xs = fold ?pass [0..<?n] ?init"
    by (simp only: zpoly_def Let_def)
  have pre: "length (fold ?pass [0..<?n] ?init) = ?n + 1 \<and>
         (\<forall>k \<le> ?n. fold ?pass [0..<?n] ?init ! k =
            (if k < ?n - ?n then 0 else coeff (linearProduct (take ?n xs)) (k - (?n - ?n))))"
    by (rule zpoly_prefix [OF refl refl]) simp
  show len: "length (zpoly xs) = length (linearProduct xs)"
    using pre by (simp only: z length_linearProduct)
  fix k assume "k < length (zpoly xs)"
  then have k: "k \<le> length xs"
    using len by (simp add: length_linearProduct)
  then show "zpoly xs ! k = linearProduct xs ! k"
    using pre by (simp add: z coeff_def length_linearProduct)
qed

subsection \<open>Linear factors and the number of roots\<close>

lemma evalPoly_cong:
  assumes "\<forall>k. coeff p k = coeff q k"
  shows "evalPoly p x = evalPoly q x"
proof -
  let ?n = "max (length p) (length q)"
  have "evalPoly p x = (\<Sum>i<?n. coeff p i * x ^ i)"
    by (rule evalPoly_coeff) simp
  also have "\<dots> = (\<Sum>i<?n. coeff q i * x ^ i)"
    by (simp add: assms)
  also have "\<dots> = evalPoly q x"
    by (rule evalPoly_coeff [symmetric]) simp
  finally show ?thesis .
qed

lemma evalPoly_zero:
  assumes "\<forall>k. coeff p k = 0"
  shows "evalPoly p x = 0"
  using evalPoly_coeff [of p "length p" x] assms by simp

text \<open>Division by a linear factor \<open>x - a\<close>.\<close>

lemma divPolys_linear:
  fixes p :: "'a::field list"
  assumes "p \<noteq> []"
  shows "\<exists>q r. divPolys p [- a, 1] = Inr (q, [r]) \<and> length q = length p - 1 \<and>
           (\<forall>k. coeff p k = coeff (mulPolys q [- a, 1]) k + coeff [r] k) \<and>
           (\<forall>x. evalPoly p x = evalPoly q x * (x - a) + r) \<and>
           r = evalPoly p a"
proof -
  have "\<exists>quotient remainder. divPolys p [- a, 1] = Inr (quotient, remainder) \<and>
           length quotient = length p + 1 - length [- a, 1] \<and>
           length remainder = min (length p) (length [- a, 1] - 1) \<and>
           (\<forall>k. coeff p k = coeff (mulPolys quotient [- a, 1]) k + coeff remainder k)"
    by (rule divPolys_correct) simp_all
  then obtain q rem where div: "divPolys p [- a, 1] = Inr (q, rem)"
    and len_q: "length q = length p - 1"
    and len_r: "length rem = min (length p) 1"
    and co: "\<forall>k. coeff p k = coeff (mulPolys q [- a, 1]) k + coeff rem k"
    by auto
  have "length rem = 1"
    using len_r assms by (cases p) simp_all
  then obtain r where rem: "rem = [r]"
    by (cases rem) simp_all
  have ev: "evalPoly p x = evalPoly q x * (x - a) + r" for x
  proof -
    have "evalPoly p x = evalPoly (addPolys (mulPolys q [- a, 1]) [r]) x"
      by (rule evalPoly_cong) (simp add: co coeff_addPolys rem)
    then show ?thesis
      by (simp add: evalPoly_addPolys evalPoly_mulPolys evalPoly_linear evalPoly_single)
  qed
  have "r = evalPoly p a"
    using ev [of a] by simp
  then show ?thesis
    using div len_q co ev rem by blast
qed

text \<open>
  A polynomial with more distinct roots than stored coefficients is the zero polynomial:
  all its stored coefficients are zero.
\<close>

lemma roots_bound:
  fixes p :: "'a::field list"
  assumes "finite S" "length p \<le> card S" "\<forall>z \<in> S. evalPoly p z = 0"
  shows "coeff p k = 0"
  using assms
proof (induction "card S" arbitrary: S p k)
  case 0
  then show ?case by (simp add: coeff_def)
next
  case (Suc n)
  show ?case
  proof (cases "p = []")
    case True
    then show ?thesis by simp
  next
    case False
    obtain a where a: "a \<in> S"
      using Suc.hyps(2) by (metis card_eq_SucD insertI1)
    obtain q r where len_q: "length q = length p - 1"
      and co: "\<forall>k. coeff p k = coeff (mulPolys q [- a, 1]) k + coeff [r] k"
      and ev: "\<forall>x. evalPoly p x = evalPoly q x * (x - a) + r"
      and r: "r = evalPoly p a"
      using divPolys_linear [OF False, of a] by blast
    have r0: "r = 0"
      using r a Suc.prems(3) by simp
    have "coeff q j = 0" for j
    proof (rule Suc.hyps(1) [of "S - {a}"])
      show "n = card (S - {a})"
        using Suc.hyps(2) a Suc.prems(1) by simp
      show "finite (S - {a})"
        using Suc.prems(1) by simp
      show "length q \<le> card (S - {a})"
        using Suc.hyps(2) a Suc.prems(1,2) len_q by simp
      show "\<forall>z \<in> S - {a}. evalPoly q z = 0"
      proof
        fix z assume z: "z \<in> S - {a}"
        then have "evalPoly q z * (z - a) = 0"
          using ev r0 Suc.prems(3) by (metis Diff_iff add.right_neutral)
        then show "evalPoly q z = 0"
          using z by simp
      qed
    qed
    then have "coeff (mulPolys q [- a, 1]) k = 0"
      by (simp add: coeff_mulPolys_zero_left)
    then show ?thesis
      using co r0 by (simp add: coeff_single)
  qed
qed

subsection \<open>Lagrange interpolation\<close>

lemma cond_update_eq:
  "(\<lambda>j r. if c j then r[j := r ! j + g j] else r) =
   (\<lambda>j r. r[j := r ! j + (if c j then g j else (0::'a::comm_monoid_add))])"
  by (auto simp: fun_eq_iff)

lemma accumulate_inner_nth:
  assumes "n \<le> length r" "k < length r"
  shows "fold (\<lambda>j r. if c j then r[j := r ! j + g j] else r) [0..<n] r ! k =
           r ! k + (if k < n \<and> c k then g k else (0::'a::comm_monoid_add))"
proof -
  have "fold (\<lambda>j r. r[j := r ! j + (if c j then g j else 0)]) [0..<n] r ! k =
        r ! k + (\<Sum>j\<leftarrow>[0..<n]. if j = k then (if c j then g j else 0) else 0)"
    using assms by (intro fold_add_at) auto
  then show ?thesis
    by (simp only: cond_update_eq sum_list_upt_delta) auto
qed

lemma length_accumulate_inner:
  "length (fold (\<lambda>j r. if c j then r[j := r ! j + g j] else r) js r) = length r"
  by (induction js arbitrary: r) simp_all

lemma accumulate_outer_nth:
  assumes "n \<le> length r" "k < length r"
  shows "fold (\<lambda>i r. fold (\<lambda>j r. if c i j then r[j := r ! j + g i j] else r) [0..<n] r) ks r ! k =
           r ! k + (\<Sum>i\<leftarrow>ks. if k < n \<and> c i k then g i k else (0::'a::comm_monoid_add))"
  using assms
proof (induction ks arbitrary: r)
  case Nil
  then show ?case by simp
next
  case (Cons i ks)
  let ?r = "fold (\<lambda>j r. if c i j then r[j := r ! j + g i j] else r) [0..<n] r"
  have len: "length ?r = length r"
    by (rule length_accumulate_inner)
  have "?r ! k = r ! k + (if k < n \<and> c i k then g i k else 0)"
    using Cons.prems by (rule accumulate_inner_nth)
  moreover have "fold (\<lambda>i r. fold (\<lambda>j r. if c i j then r[j := r ! j + g i j] else r) [0..<n] r) ks ?r ! k =
      ?r ! k + (\<Sum>i\<leftarrow>ks. if k < n \<and> c i k then g i k else 0)"
    using Cons.prems len by (intro Cons.IH) simp_all
  ultimately show ?case
    by (simp add: add.assoc)
qed

lemma length_accumulate_outer:
  "length (fold (\<lambda>i r. fold (\<lambda>j r. if c i j then r[j := r ! j + g i j] else r) js r) ks r) = length r"
  by (induction ks arbitrary: r) (simp_all add: length_accumulate_inner)

lemma prod_list_zero_mem: "(0::'a::field) \<in> set xs \<Longrightarrow> prod_list xs = 0"
  by (induction xs) auto

lemma evalPoly_linearProduct_root: "a \<in> set cs \<Longrightarrow> evalPoly (linearProduct cs) a = 0"
  by (simp add: evalPoly_linearProduct prod_list_zero_mem)

text \<open>The numerators of the interpolation: the quotients of the root polynomial.\<close>

lemma interpolate_numerator:
  fixes xs :: "'a::field list"
  assumes "distinct xs" "i < length xs"
  shows "\<exists>q. divPolys (zpoly xs) [- (xs ! i), 1] = Inr (q, [0]) \<and> length q = length xs \<and>
           (\<forall>j < length xs. j \<noteq> i \<longrightarrow> evalPoly q (xs ! j) = 0) \<and>
           evalPoly q (xs ! i) \<noteq> 0"
proof -
  let ?n = "length xs" and ?a = "xs ! i"
  let ?root = "linearProduct xs"
  have ne: "?root \<noteq> []"
    using length_linearProduct [of xs] by auto
  obtain q r where div: "divPolys ?root [- ?a, 1] = Inr (q, [r])"
    and len_q: "length q = length ?root - 1"
    and co: "\<forall>k. coeff ?root k = coeff (mulPolys q [- ?a, 1]) k + coeff [r] k"
    and ev: "\<forall>x. evalPoly ?root x = evalPoly q x * (x - ?a) + r"
    and r: "r = evalPoly ?root ?a"
    using divPolys_linear [OF ne, of ?a] by blast
  have r0: "r = 0"
    using r assms(2) by (simp add: evalPoly_linearProduct_root)
  have len: "length q = ?n"
    using len_q by (simp add: length_linearProduct)
  have others: "evalPoly q (xs ! j) = 0" if "j < ?n" "j \<noteq> i" for j
  proof -
    have "evalPoly q (xs ! j) * (xs ! j - ?a) = 0"
      using ev r0 that(1) by (metis add.right_neutral evalPoly_linearProduct_root nth_mem)
    moreover have "xs ! j \<noteq> ?a"
      using assms that by (simp add: nth_eq_iff_index_eq)
    ultimately show ?thesis
      by simp
  qed
  have top: "coeff q (?n - 1) = 1"
  proof -
    have "coeff ?root ?n = coeff (mulPolys q [- ?a, 1]) ?n + coeff [r] ?n"
      using co by blast
    moreover have "coeff q ?n = 0"
      by (simp add: coeff_eq_0 len)
    moreover have "?n \<noteq> 0"
      using assms(2) by auto
    ultimately show ?thesis
      by (simp add: coeff_linearProduct_top coeff_mulPolys_linear coeff_single)
  qed
  have "evalPoly q ?a \<noteq> 0"
  proof
    assume zero: "evalPoly q ?a = 0"
    have "\<forall>z \<in> set xs. evalPoly q z = 0"
    proof
      fix z assume "z \<in> set xs"
      then obtain j where "j < ?n" "z = xs ! j"
        by (auto simp: in_set_conv_nth)
      then show "evalPoly q z = 0"
        using zero others by (cases "j = i") auto
    qed
    moreover have "length q \<le> card (set xs)"
      using assms(1) by (simp add: distinct_card len)
    ultimately have "coeff q (?n - 1) = 0"
      by (intro roots_bound [of "set xs"]) simp_all
    then show False
      using top by simp
  qed
  then show ?thesis
    using div r0 len others by (simp add: zpoly_eq)
qed

lemma ebind_Inr [simp]: "ebind (Inr x) f = f x"
  by (simp add: ebind_def)

lemma ebind_Inl [simp]: "ebind (Inl e) f = Inl e"
  by (simp add: ebind_def)

lemma interpolate_correct:
  fixes xs ys :: "'a::field list"
  assumes "length xs = length ys" "distinct xs"
  shows "\<exists>p. interpolate xs ys = Inr p \<and> length p = length xs \<and>
           (\<forall>i < length xs. evalPoly p (xs ! i) = ys ! i)"
proof -
  let ?n = "length xs"
  define num where "num i = fst (projr (divPolys (zpoly xs) [- (xs ! i), 1]))" for i
  have num_div: "divPolys (zpoly xs) [- (xs ! i), 1] = Inr (num i, [0])"
    and num_len: "length (num i) = ?n"
    and num_others: "\<And>j. j < ?n \<Longrightarrow> j \<noteq> i \<Longrightarrow> evalPoly (num i) (xs ! j) = 0"
    and num_self: "evalPoly (num i) (xs ! i) \<noteq> 0"
    if "i < ?n" for i
    using interpolate_numerator [OF assms(2) that] by (auto simp: num_def)
  define numerators where "numerators = map num [0..<?n]"
  have m1: "map_err (\<lambda>i. ebind (divPolys (zpoly xs) [- (xs ! i), 1]) (\<lambda>(q, r). Inr q)) [0..<?n] =
            Inr numerators"
    unfolding numerators_def by (rule map_err_Inr) (simp add: num_div ebind_def)
  define den where "den i = evalPoly (num i) (xs ! i)" for i
  have dens: "map (\<lambda>i. evalPoly (numerators ! i) (xs ! i)) [0..<?n] = map den [0..<?n]"
    by (simp add: numerators_def den_def)
  define invDen where "invDen = map (\<lambda>i. inverse (den i)) [0..<?n]"
  have "map_err Fr_inv (map den [0..<?n]) = Inr (map inverse (map den [0..<?n]))"
    by (rule map_err_Inr) (auto simp: den_def num_self Fr_inv_nonzero)
  then have m2: "map_err Fr_inv (map den [0..<?n]) = Inr invDen"
    by (simp add: invDen_def comp_def)
  define w where "w i = ys ! i * inverse (den i)" for i
  define p where "p = fold (\<lambda>i r.
       fold (\<lambda>j r. if num i ! j \<noteq> 0 \<and> ys ! i \<noteq> 0 then r[j := r ! j + num i ! j * w i] else r)
         [0..<?n] r) [0..<?n] (replicate ?n 0)"
  have loop: "fold (\<lambda>i. fold (\<lambda>j r. if numerators ! i ! j \<noteq> 0 \<and> ys ! i \<noteq> 0
                         then r[j := r ! j + numerators ! i ! j * (ys ! i * invDen ! i)] else r)
              [0..<?n]) [0..<?n] (replicate ?n 0) = p"
    unfolding p_def
    by (rule fold_cong) (simp_all add: numerators_def invDen_def w_def Let_def cong: if_cong)
  have res: "interpolate xs ys = Inr p"
    using assms(1) [symmetric] by (simp add: interpolate_def Let_def m1 dens m2 loop)
  have len: "length p = ?n"
    by (simp add: p_def length_accumulate_outer)
  have nth: "p ! k = (\<Sum>i<?n. num i ! k * w i)" if "k < ?n" for k
  proof -
    have "p ! k = replicate ?n 0 ! k +
        (\<Sum>i\<leftarrow>[0..<?n]. if k < ?n \<and> (num i ! k \<noteq> 0 \<and> ys ! i \<noteq> 0) then num i ! k * w i else 0)"
      unfolding p_def using that by (intro accumulate_outer_nth) simp_all
    also have "\<dots> = (\<Sum>i \<in> {0..<?n}. if num i ! k \<noteq> 0 \<and> ys ! i \<noteq> 0 then num i ! k * w i else 0)"
      using that by (simp add: interv_sum_list_conv_sum_set_nat)
    also have "\<dots> = (\<Sum>i<?n. num i ! k * w i)"
      by (intro sum.cong) (auto simp: w_def)
    finally show ?thesis .
  qed
  have ev: "evalPoly p x = (\<Sum>i<?n. w i * evalPoly (num i) x)" for x
  proof -
    have "evalPoly p x = (\<Sum>k<?n. (\<Sum>i<?n. num i ! k * w i) * x ^ k)"
      by (simp add: evalPoly_sum len nth)
    also have "\<dots> = (\<Sum>k<?n. \<Sum>i<?n. w i * (num i ! k * x ^ k))"
      by (intro sum.cong refl) (simp add: sum_distrib_left sum_distrib_right mult_ac)
    also have "\<dots> = (\<Sum>i<?n. \<Sum>k<?n. w i * (num i ! k * x ^ k))"
      by (rule sum.swap)
    also have "\<dots> = (\<Sum>i<?n. w i * evalPoly (num i) x)"
      by (intro sum.cong refl) (simp add: evalPoly_sum num_len sum_distrib_left)
    finally show ?thesis .
  qed
  have "evalPoly p (xs ! j) = ys ! j" if j: "j < ?n" for j
  proof -
    have "evalPoly p (xs ! j) = (\<Sum>i<?n. if i = j then w j * den j else 0)"
      unfolding ev by (intro sum.cong refl) (auto simp: num_others j den_def)
    also have "\<dots> = w j * den j"
      using j by (simp add: sum.delta)
    also have "\<dots> = ys ! j"
      using num_self [OF j] by (simp add: w_def den_def)
    finally show ?thesis .
  qed
  then show ?thesis
    using res len by blast
qed

text \<open>
  Claim C3. For \<open>xs\<close> and \<open>ys\<close> of equal length with the entries of \<open>xs\<close> pairwise
  distinct, \<open>interpolate xs ys\<close> returns a polynomial of stored length \<open>length xs\<close>
  (degree below \<open>length xs\<close>) whose value at every \<open>xs\<^sub>i\<close> is \<open>ys\<^sub>i\<close>.
\<close>

theorem interpolate_round_trip:
  fixes xs ys :: "'a::field list"
  assumes "length xs = length ys" "distinct xs"
  shows "\<exists>p. interpolate xs ys = Inr p \<and> length p = length xs \<and>
           (\<forall>i < length xs. evalPoly p (xs ! i) = ys ! i)"
  using assms by (rule interpolate_correct)

lemma interpolate_example: "interpolate [1, 2, 3 :: rat] [4, 5, 6] = Inr [3, 1, 0]"
  by code_simp

theorem interpolate_round_trip_witness:
  "length [1, 2, 3 :: rat] = length [4, 5, 6 :: rat] \<and> distinct [1, 2, 3 :: rat] \<and>
   interpolate [1, 2, 3 :: rat] [4, 5, 6] = Inr [3, 1, 0] \<and>
   evalPoly [3, 1, 0] (1 :: rat) = 4 \<and> evalPoly [3, 1, 0] (2 :: rat) = 5 \<and>
   evalPoly [3, 1, 0] (3 :: rat) = 6"
  using interpolate_round_trip [of "[1, 2, 3 :: rat]" "[4, 5, 6]"] interpolate_example
  by (simp add: evalPoly_sum lessThan_Suc)

section \<open>Proving on a QAP of degree 0\<close>

lemma scalarsFoldG1_Nil: "scalarsFoldG1 points [] = Inl TypeError"
  by (simp add: scalarsFoldG1_def reduce1_def)

lemma length_combineRows_le:
  assumes "combineRows witness acc ps = Inr r" "length acc \<le> n"
    and "\<forall>(row, i) \<in> set ps. length row \<le> n"
  shows "length r \<le> n"
  using assms
proof (induction ps arbitrary: acc)
  case Nil
  then show ?case by simp
next
  case (Cons p ps)
  obtain row i where p: "p = (row, i)"
    by (cases p)
  obtain sr where sr: "scaledRow witness i row = Inr sr"
    and rest: "combineRows witness (addPolys acc sr) ps = Inr r"
    using Cons.prems(1) by (auto simp: p split: sum.splits)
  have "length sr \<le> n"
    using sr Cons.prems(3) by (auto simp: p scaledRow_def length_mulPolys split: if_splits)
  then have "length (addPolys acc sr) \<le> n"
    using Cons.prems(2) by (simp add: length_addPolys)
  then show ?case
    using rest Cons.prems(3) by (intro Cons.IH [of "addPolys acc sr"]) simp_all
qed

lemma length_combineRows_zip_le:
  assumes "combineRows witness [] (zip rows [0..<length rows]) = Inr r"
    and "\<forall>row \<in> set rows. length row \<le> n"
  shows "length r \<le> n"
  using assms(1)
proof (rule length_combineRows_le)
  show "length ([]::'a list) \<le> n"
    by simp
  show "\<forall>(row, i) \<in> set (zip rows [0..<length rows]). length row \<le> n"
    using assms(2) by (auto dest: set_zip_leftD)
qed

lemma computeDivisorPoly_short:
  assumes "length ht < length t" "computeDivisorPoly ht t = Inr h"
  shows "h = []"
  using assms by (auto simp: computeDivisorPoly_def divPolys_short split: option.splits)

lemma prove_degree_0_error:
  assumes "length (qap_u qap ! 0) = 1"
    and "\<forall>row \<in> set (qap_u qap) \<union> set (qap_v qap) \<union> set (qap_w qap). length row \<le> 1"
  shows "\<exists>e. prove ts qap witness shouldCheckProof r s = Inl e"
proof (cases "computeSolutionPoly (1 # witness) qap")
  case (Inl e)
  then show ?thesis
    by (simp add: prove_def)
next
  case (Inr sol)
  obtain au av ht where sol: "sol = (au, av, ht)"
    by (cases sol)
  obtain aw where au: "combineRows (1 # witness) [] (zip (qap_u qap) [0..<length (qap_u qap)]) = Inr au"
    and av: "combineRows (1 # witness) [] (zip (qap_v qap) [0..<length (qap_v qap)]) = Inr av"
    and aw: "combineRows (1 # witness) [] (zip (qap_w qap) [0..<length (qap_w qap)]) = Inr aw"
    and ht: "ht = subPolys (mulPolys au av) aw"
    using Inr unfolding sol computeSolutionPoly_def ebind_def Let_def
    by (auto split: sum.splits if_splits option.splits)
  have "length au \<le> 1" "length av \<le> 1" "length aw \<le> 1"
    using au av aw assms(2) by (auto intro: length_combineRows_zip_le)
  then have len_ht: "length ht < length (tPoly (length (qap_u qap ! 0)) :: 'a list)"
    by (simp add: ht length_subPolys length_mulPolys length_tPoly assms(1))
  show ?thesis
  proof (cases "scalarsFoldG1 (tauG1 ts) au")
    case Inl
    then show ?thesis
      using Inr by (simp add: prove_def sol)
  next
    case sumA: Inr
    show ?thesis
    proof (cases "scalarsFoldG1 (tauG1 ts) av")
      case Inl
      then show ?thesis
        using Inr sumA by (simp add: prove_def sol Let_def)
    next
      case sumBG1: Inr
      show ?thesis
      proof (cases "scalarsFoldG2 (tauG2 ts) av")
        case Inl
        then show ?thesis
          using Inr sumA sumBG1 by (simp add: prove_def sol Let_def)
      next
        case sumBG2: Inr
        show ?thesis
        proof (cases "computeDivisorPoly ht (tPoly (length (qap_u qap ! 0)))")
          case Inl
          then show ?thesis
            using Inr sumA sumBG1 sumBG2 by (simp add: prove_def sol Let_def)
        next
          case h: (Inr h)
          have "h = []"
            using len_ht h by (rule computeDivisorPoly_short)
          then show ?thesis
            using Inr sumA sumBG1 sumBG2 h
            by (simp add: prove_def sol Let_def scalarsFoldG1_Nil)
        qed
      qed
    qed
  qed
qed


text \<open>
  Claim C2. The claim's first half holds (the witness below shows the length-1 basis
  polynomials of a single-constraint R1CS), its second half does not: on every QAP
  whose polynomials have stored length at most 1, with \<open>u\<^sub>0\<close> of length 1, \<open>prove\<close> ends
  in an error, whatever the setup, the witness and the randomness. The quotient
  \<open>h\<close> of a solution polynomial of length 1 by the vanishing polynomial of length 2 is
  the empty array, and \<^verbatim>\<open>h.map(...).reduce(...)\<close> has no initial value.
\<close>

theorem prove_fails_on_degree_0_qap:
  assumes "length (qap_u qap ! 0) = 1"
    and "\<forall>row \<in> set (qap_u qap) \<union> set (qap_v qap) \<union> set (qap_w qap). length row \<le> 1"
  shows "\<exists>e. prove ts qap witness shouldCheckProof r s = Inl e"
  using assms by (rule prove_degree_0_error)

lemma single_constraint_example:
  "fromR1csToQap 1 [[0, 1, 0]] [[1, 0, 0]] [[0, 0, 1 :: rat]] =
     Inr \<lparr> qap_l = 1, qap_u = [[0], [1], [0]], qap_v = [[1], [0], [0]], qap_w = [[0], [0], [1]] \<rparr>"
  "trustedSetup \<lparr> qap_l = 1, qap_u = [[0], [1], [0 :: rat]], qap_v = [[1], [0], [0]],
       qap_w = [[0], [0], [1]] \<rparr> 7 11 13 17 19 =
     Inr \<lparr> power_ts = 1, tauG1 = [PointG1 1], tauG2 = [PointG2 1],
        alphaG1 = PointG1 11, betaG1 = PointG1 13, betaG2 = PointG2 13,
        gammaG2 = PointG2 17, deltaG1 = PointG1 19, deltaG2 = PointG2 19,
        cTauPublicG1 = [PointG1 (11 / 17), PointG1 (13 / 17)],
        cTauPrivateG1 = [PointG1 (1 / 19)],
        tTauInvDeltaG1 = [PointG1 (6 / 19)] \<rparr>"
  "computeSolutionPoly [1, 3, 3]
     \<lparr> qap_l = 1, qap_u = [[0], [1], [0 :: rat]], qap_v = [[1], [0], [0]], qap_w = [[0], [0], [1]] \<rparr> =
     Inr ([3], [1], [0])"
  "computeDivisorPoly [0] (tPoly 1 :: rat list) = Inr []"
  by code_simp+

theorem prove_fails_on_degree_0_qap_witness:
  "fromR1csToQap 1 [[0, 1, 0]] [[1, 0, 0]] [[0, 0, 1 :: rat]] =
     Inr \<lparr> qap_l = 1, qap_u = [[0], [1], [0]], qap_v = [[1], [0], [0]], qap_w = [[0], [0], [1]] \<rparr> \<and>
   computeSolutionPoly [1, 3, 3]
     \<lparr> qap_l = 1, qap_u = [[0], [1], [0 :: rat]], qap_v = [[1], [0], [0]], qap_w = [[0], [0], [1]] \<rparr> =
     Inr ([3], [1], [0]) \<and>
   computeDivisorPoly [0] (tPoly 1 :: rat list) = Inr [] \<and>
   (\<exists>e. prove \<lparr> power_ts = 1, tauG1 = [PointG1 1], tauG2 = [PointG2 1],
        alphaG1 = PointG1 11, betaG1 = PointG1 13, betaG2 = PointG2 13,
        gammaG2 = PointG2 17, deltaG1 = PointG1 19, deltaG2 = PointG2 19,
        cTauPublicG1 = [PointG1 (11 / 17), PointG1 (13 / 17)],
        cTauPrivateG1 = [PointG1 (1 / 19)],
        tTauInvDeltaG1 = [PointG1 (6 / 19)] \<rparr>
      \<lparr> qap_l = 1, qap_u = [[0], [1], [0 :: rat]], qap_v = [[1], [0], [0]], qap_w = [[0], [0], [1]] \<rparr>
      [3, 3] False 23 29 = Inl e)"
  using prove_fails_on_degree_0_qap [of
      "\<lparr> qap_l = 1, qap_u = [[0], [1], [0 :: rat]], qap_v = [[1], [0], [0]], qap_w = [[0], [0], [1]] \<rparr>"
      "\<lparr> power_ts = 1, tauG1 = [PointG1 1], tauG2 = [PointG2 1],
        alphaG1 = PointG1 11, betaG1 = PointG1 13, betaG2 = PointG2 13,
        gammaG2 = PointG2 17, deltaG1 = PointG1 19, deltaG2 = PointG2 19,
        cTauPublicG1 = [PointG1 (11 / 17), PointG1 (13 / 17)],
        cTauPrivateG1 = [PointG1 (1 / 19)],
        tTauInvDeltaG1 = [PointG1 (6 / 19)] \<rparr>" "[3, 3]" False 23 29]
    single_constraint_example
  by simp


section \<open>Completeness of the pipeline\<close>

subsection \<open>The QAP of an R1CS and the setup\<close>

lemma transpose_matrix_ok:
  assumes "matrix \<noteq> []" "\<forall>row \<in> set matrix. length row = n"
  shows "transpose_matrix matrix =
           Inr (map (\<lambda>i. map (\<lambda>j. matrix ! j ! i) [0..<length matrix]) [0..<n])"
proof -
  have "length (matrix ! 0) = n"
    using assms by (cases matrix) simp_all
  moreover have "\<not> (\<exists>row \<in> set matrix. length row < n)"
    using assms(2) by auto
  ultimately show ?thesis
    using assms(1) by (simp add: transpose_matrix_def Let_def)
qed

lemma map_err_ex:
  assumes "\<forall>x \<in> set xs. \<exists>y. f x = Inr y \<and> P x y"
  shows "\<exists>ys. map_err f xs = Inr ys \<and> length ys = length xs \<and>
           (\<forall>i < length xs. P (xs ! i) (ys ! i))"
  using assms
proof (induction xs)
  case Nil
  then show ?case by simp
next
  case (Cons x xs)
  obtain y where y: "f x = Inr y" "P x y"
    using Cons.prems by auto
  obtain ys where ys: "map_err f xs = Inr ys" "length ys = length xs"
    "\<forall>i < length xs. P (xs ! i) (ys ! i)"
    using Cons.IH Cons.prems by auto
  have "\<forall>i < length (x # xs). P ((x # xs) ! i) ((y # ys) ! i)"
    using y(2) ys(3) by (auto simp: nth_Cons split: nat.splits)
  then show ?case
    using y(1) ys(1,2) by auto
qed

lemma distinct_points:
  assumes "inj_on (of_nat :: nat \<Rightarrow> 'a::field) {1..m}"
  shows "distinct (map (\<lambda>i. of_nat (i + 1) :: 'a) [0..<m])"
proof -
  have "inj_on (\<lambda>i. of_nat (i + 1) :: 'a) {0..<m}"
  proof (rule inj_onI)
    fix i j assume "i \<in> {0..<m}" "j \<in> {0..<m}" "(of_nat (i + 1) :: 'a) = of_nat (j + 1)"
    then have "i + 1 = j + 1"
      using assms by (intro inj_onD [OF assms]) auto
    then show "i = j" by simp
  qed
  then show ?thesis
    by (simp add: distinct_map)
qed

lemma interpolate_rows:
  fixes M :: "'a::field list list"
  assumes "M \<noteq> []" "\<forall>row \<in> set M. length row = n"
    and "inj_on (of_nat :: nat \<Rightarrow> 'a) {1..length M}"
  shows "\<exists>P. map_err (interpolate (map (\<lambda>i. of_nat (i + 1)) [0..<length M]))
                (map (\<lambda>i. map (\<lambda>j. M ! j ! i) [0..<length M]) [0..<n]) = Inr P \<and>
           length P = n \<and>
           (\<forall>i < n. length (P ! i) = length M \<and>
              (\<forall>k < length M. evalPoly (P ! i) (of_nat (k + 1)) = M ! k ! i))"
proof -
  let ?m = "length M"
  let ?xs = "map (\<lambda>i. of_nat (i + 1) :: 'a) [0..<?m]"
  let ?Mt = "map (\<lambda>i. map (\<lambda>j. M ! j ! i) [0..<?m]) [0..<n]"
  let ?Q = "\<lambda>row p. length p = ?m \<and> (\<forall>k < ?m. evalPoly p (of_nat (k + 1)) = row ! k)"
  have dist: "distinct ?xs"
    using assms(3) by (rule distinct_points)
  have "\<forall>row \<in> set ?Mt. \<exists>p. interpolate ?xs row = Inr p \<and> ?Q row p"
  proof
    fix row assume "row \<in> set ?Mt"
    then have len: "length ?xs = length row"
      by auto
    from interpolate_correct [OF len dist]
    obtain p where "interpolate ?xs row = Inr p" "length p = length ?xs"
      "\<forall>i < length ?xs. evalPoly p (?xs ! i) = row ! i"
      by blast
    then show "\<exists>p. interpolate ?xs row = Inr p \<and> ?Q row p"
      by auto
  qed
  from map_err_ex [of ?Mt "interpolate ?xs" ?Q, OF this]
  obtain P where P: "map_err (interpolate ?xs) ?Mt = Inr P" "length P = length ?Mt"
    "\<forall>i < length ?Mt. ?Q (?Mt ! i) (P ! i)"
    by blast
  have "\<forall>i < n. length (P ! i) = ?m \<and> (\<forall>k < ?m. evalPoly (P ! i) (of_nat (k + 1)) = M ! k ! i)"
    using P(3) by simp
  then show ?thesis
    using P(1,2) by auto
qed

lemma fromR1csToQap_ok:
  fixes A B C :: "'a::field list list"
  assumes "A \<noteq> []" "length B = length A" "length C = length A"
    and "\<forall>row \<in> set A \<union> set B \<union> set C. length row = n" "0 < n"
    and "inj_on (of_nat :: nat \<Rightarrow> 'a) {1..length A}"
  shows "\<exists>U V W. fromR1csToQap l A B C = Inr \<lparr> qap_l = l, qap_u = U, qap_v = V, qap_w = W \<rparr> \<and>
           length U = n \<and> length V = n \<and> length W = n \<and>
           (\<forall>i < n. length (U ! i) = length A \<and> length (V ! i) = length A \<and>
                     length (W ! i) = length A \<and>
              (\<forall>k < length A. evalPoly (U ! i) (of_nat (k + 1)) = A ! k ! i \<and>
                               evalPoly (V ! i) (of_nat (k + 1)) = B ! k ! i \<and>
                               evalPoly (W ! i) (of_nat (k + 1)) = C ! k ! i))"
proof -
  let ?m = "length A"
  let ?xs = "map (\<lambda>i. of_nat (i + 1) :: 'a) [0..<?m]"
  let ?t = "\<lambda>M :: 'a list list. map (\<lambda>i. map (\<lambda>j. M ! j ! i) [0..<?m]) [0..<n]"
  have neB: "B \<noteq> []" and neC: "C \<noteq> []"
    using assms(1,2,3) by auto
  have tA: "transpose_matrix A = Inr (?t A)"
    using assms(1,4) by (intro transpose_matrix_ok) auto
  have tB: "transpose_matrix B = Inr (?t B)"
    using transpose_matrix_ok [OF neB, of n] assms(4) by (simp add: assms(2))
  have tC: "transpose_matrix C = Inr (?t C)"
    using transpose_matrix_ok [OF neC, of n] assms(4) by (simp add: assms(3))
  have ne: "?t A \<noteq> []" and len0: "length (?t A ! 0) = ?m"
    using assms(5) by simp_all
  obtain U where U: "map_err (interpolate ?xs) (?t A) = Inr U" "length U = n"
    "\<forall>i < n. length (U ! i) = ?m \<and> (\<forall>k < ?m. evalPoly (U ! i) (of_nat (k + 1)) = A ! k ! i)"
    using interpolate_rows [OF assms(1), of n] assms(4,6) by auto
  obtain V where V: "map_err (interpolate ?xs) (?t B) = Inr V" "length V = n"
    "\<forall>i < n. length (V ! i) = ?m \<and> (\<forall>k < ?m. evalPoly (V ! i) (of_nat (k + 1)) = B ! k ! i)"
    using interpolate_rows [OF neB, of n] assms(4,6) by (auto simp: assms(2))
  obtain W where W: "map_err (interpolate ?xs) (?t C) = Inr W" "length W = n"
    "\<forall>i < n. length (W ! i) = ?m \<and> (\<forall>k < ?m. evalPoly (W ! i) (of_nat (k + 1)) = C ! k ! i)"
    using interpolate_rows [OF neC, of n] assms(4,6) by (auto simp: assms(3))
  have "fromR1csToQap l A B C = Inr \<lparr> qap_l = l, qap_u = U, qap_v = V, qap_w = W \<rparr>"
    unfolding fromR1csToQap_def tA tB tC ebind_Inr Let_def len0
    using ne U(1) V(1) W(1) by simp
  then show ?thesis
    using U(2,3) V(2,3) W(2,3) by blast
qed


lemma take_upt_min: "take k [0..<n] = [0..<min k n]"
  by (cases "k \<le> n") (simp_all add: min_def)

lemma trustedSetup_ok:
  fixes qap :: "'a::field QAP"
  assumes "qap_u qap \<noteq> []" "length (qap_u qap) = length (qap_w qap)"
    and "length (qap_v qap) = length (qap_w qap)" "gamma \<noteq> 0" "delta \<noteq> 0"
  shows "trustedSetup qap tau alpha beta gamma delta =
    Inr \<lparr> power_ts = length (qap_u qap ! 0),
          tauG1 = map (\<lambda>i. PointG1 (tau ^ i)) [0..<length (qap_u qap ! 0)],
          tauG2 = map (\<lambda>i. PointG2 (tau ^ i)) [0..<length (qap_u qap ! 0)],
          alphaG1 = PointG1 alpha, betaG1 = PointG1 beta, betaG2 = PointG2 beta,
          gammaG2 = PointG2 gamma, deltaG1 = PointG1 delta, deltaG2 = PointG2 delta,
          cTauPublicG1 = map (\<lambda>i. PointG1
              ((beta * evalPoly (qap_u qap ! i) tau + alpha * evalPoly (qap_v qap ! i) tau +
                evalPoly (qap_w qap ! i) tau) * inverse gamma))
            [0..<min (qap_l qap + 1) (length (qap_w qap))],
          cTauPrivateG1 = map (\<lambda>i. PointG1
              ((beta * evalPoly (qap_u qap ! i) tau + alpha * evalPoly (qap_v qap ! i) tau +
                evalPoly (qap_w qap ! i) tau) * inverse delta))
            [qap_l qap + 1..<length (qap_w qap)],
          tTauInvDeltaG1 = map (\<lambda>i. PointG1
              (tau ^ i * evalPoly (tPoly (length (qap_u qap ! 0))) tau * inverse delta))
            [0..<length (qap_u qap ! 0)] \<rparr>"
proof -
  let ?c = "\<lambda>i. beta * evalPoly (qap_u qap ! i) tau + alpha * evalPoly (qap_v qap ! i) tau +
                evalPoly (qap_w qap ! i) tau"
  let ?betaU = "map (\<lambda>uPoly. map (\<lambda>x. x * beta) uPoly) (qap_u qap)"
  let ?alphaV = "map (\<lambda>vPoly. map (\<lambda>x. x * alpha) vPoly) (qap_v qap)"
  have cG1: "map_err (\<lambda>i.
                 ebind (elemAt ?betaU i) (\<lambda>bu.
                 ebind (elemAt ?alphaV i) (\<lambda>av.
                   Inr (G1_mul G1_generator
                     (evalPoly (addPolys (addPolys bu av) (qap_w qap ! i)) tau)))))
               [0..<length (qap_w qap)] = Inr (map (\<lambda>i. PointG1 (?c i)) [0..<length (qap_w qap)])"
    by (rule map_err_Inr)
       (simp add: elemAt_def assms(2,3) evalPoly_addPolys evalPoly_map_scale G1_generator_def)
  show ?thesis
    unfolding trustedSetup_def Let_def cG1 ebind_Inr
    using assms(1,4,5)
    by (simp add: Fr_inv_nonzero G1_generator_def G2_generator_def take_map drop_map
          take_upt_min)
qed


lemma scalarsFoldG1_map:
  assumes "scalars \<noteq> []" "length scalars \<le> b - a"
  shows "scalarsFoldG1 (map (\<lambda>i. PointG1 (g i)) [a..<b]) scalars =
           Inr (PointG1 (\<Sum>i<length scalars. g (a + i) * scalars ! i))"
proof -
  have "scalarsFoldG1 (map (\<lambda>i. PointG1 (g i)) [a..<b]) scalars =
        Inr (PointG1 (\<Sum>i<length scalars. dlog1 (map (\<lambda>i. PointG1 (g i)) [a..<b] ! i) * scalars ! i))"
    using assms by (intro scalarsFoldG1_eq) simp_all
  moreover have "(\<Sum>i<length scalars. dlog1 (map (\<lambda>i. PointG1 (g i)) [a..<b] ! i) * scalars ! i) =
                 (\<Sum>i<length scalars. g (a + i) * scalars ! i)"
    using assms(2) by (intro sum.cong refl) simp
  ultimately show ?thesis
    by simp
qed

lemma scalarsFoldG2_map:
  assumes "scalars \<noteq> []" "length scalars \<le> b - a"
  shows "scalarsFoldG2 (map (\<lambda>i. PointG2 (g i)) [a..<b]) scalars =
           Inr (PointG2 (\<Sum>i<length scalars. g (a + i) * scalars ! i))"
proof -
  have "scalarsFoldG2 (map (\<lambda>i. PointG2 (g i)) [a..<b]) scalars =
        Inr (PointG2 (\<Sum>i<length scalars. dlog2 (map (\<lambda>i. PointG2 (g i)) [a..<b] ! i) * scalars ! i))"
    using assms by (intro scalarsFoldG2_eq) simp_all
  moreover have "(\<Sum>i<length scalars. dlog2 (map (\<lambda>i. PointG2 (g i)) [a..<b] ! i) * scalars ! i) =
                 (\<Sum>i<length scalars. g (a + i) * scalars ! i)"
    using assms(2) by (intro sum.cong refl) simp
  ultimately show ?thesis
    by simp
qed

lemma pointsFoldG1_map:
  assumes "a < b" "b - a \<le> length scalars"
  shows "pointsFoldG1 (map (\<lambda>i. PointG1 (g i)) [a..<b]) scalars =
           Inr (PointG1 (\<Sum>i<b - a. g (a + i) * scalars ! i))"
proof -
  have "pointsFoldG1 (map (\<lambda>i. PointG1 (g i)) [a..<b]) scalars =
        Inr (PointG1 (\<Sum>i<length (map (\<lambda>i. PointG1 (g i)) [a..<b]).
               dlog1 (map (\<lambda>i. PointG1 (g i)) [a..<b] ! i) * scalars ! i))"
    using assms by (intro pointsFoldG1_eq) simp_all
  moreover have "(\<Sum>i<length (map (\<lambda>i. PointG1 (g i)) [a..<b]).
               dlog1 (map (\<lambda>i. PointG1 (g i)) [a..<b] ! i) * scalars ! i) =
                 (\<Sum>i<b - a. g (a + i) * scalars ! i)"
    by (intro sum.cong) simp_all
  ultimately show ?thesis
    by simp
qed

lemma evalPoly_lincomb:
  assumes "\<forall>k. coeff p k = (\<Sum>i<n. c i * coeff (rows ! i) k)"
    and "length p \<le> N" "\<forall>i<n. length (rows ! i) \<le> N"
  shows "evalPoly p x = (\<Sum>i<n. c i * evalPoly (rows ! i) x)"
proof -
  have "evalPoly p x = (\<Sum>k<N. (\<Sum>i<n. c i * coeff (rows ! i) k) * x ^ k)"
    using assms(1,2) by (simp add: evalPoly_coeff [of p N])
  also have "\<dots> = (\<Sum>k<N. \<Sum>i<n. c i * (coeff (rows ! i) k * x ^ k))"
    by (intro sum.cong refl) (simp add: sum_distrib_right mult.assoc)
  also have "\<dots> = (\<Sum>i<n. \<Sum>k<N. c i * (coeff (rows ! i) k * x ^ k))"
    by (rule sum.swap)
  also have "\<dots> = (\<Sum>i<n. c i * evalPoly (rows ! i) x)"
    using assms(3) by (intro sum.cong refl) (simp add: evalPoly_coeff [of _ N] sum_distrib_left)
  finally show ?thesis .
qed

lemma evalPoly_tPoly_root: "k \<in> {1..m} \<Longrightarrow> evalPoly (tPoly m) (of_nat k) = 0"
  by (auto simp: evalPoly_tPoly)

text \<open>A polynomial that vanishes at the points \<open>1..m\<close> is divided exactly by \<open>tPoly m\<close>.\<close>

lemma computeDivisorPoly_exact:
  fixes ht :: "'a::field list"
  assumes "inj_on (of_nat :: nat \<Rightarrow> 'a) {1..m}"
    and "\<forall>k \<in> {1..m}. evalPoly ht (of_nat k) = 0"
  shows "\<exists>h. computeDivisorPoly ht (tPoly m) = Inr h \<and> length h = length ht - m \<and>
           (\<forall>x. evalPoly ht x = evalPoly h x * evalPoly (tPoly m) x)"
proof -
  let ?t = "tPoly m :: 'a list"
  have ne: "?t \<noteq> []"
    using length_tPoly [of m, where ?'a = 'a] by auto
  have "last ?t \<noteq> 0"
    by (simp add: last_tPoly)
  from divPolys_correct [OF ne this, of ht]
  obtain h rem where div: "divPolys ht ?t = Inr (h, rem)"
    and len_h: "length h = length ht + 1 - length ?t"
    and len_r: "length rem = min (length ht) (length ?t - 1)"
    and co: "\<forall>k. coeff ht k = coeff (mulPolys h ?t) k + coeff rem k"
    by blast
  have ev: "evalPoly ht x = evalPoly h x * evalPoly ?t x + evalPoly rem x" for x
  proof -
    have "evalPoly ht x = evalPoly (addPolys (mulPolys h ?t) rem) x"
      by (rule evalPoly_cong) (simp add: co coeff_addPolys)
    then show ?thesis
      by (simp add: evalPoly_addPolys evalPoly_mulPolys)
  qed
  let ?S = "(of_nat :: nat \<Rightarrow> 'a) ` {1..m}"
  have "card ?S = m"
    using assms(1) by (simp add: card_image)
  then have "length rem \<le> card ?S"
    using len_r by (simp add: length_tPoly)
  moreover have "\<forall>z \<in> ?S. evalPoly rem z = 0"
  proof
    fix z assume "z \<in> ?S"
    then obtain k where k: "k \<in> {1..m}" "z = of_nat k"
      by auto
    then show "evalPoly rem z = 0"
      using ev [of z] assms(2) evalPoly_tPoly_root [OF k(1), where ?'a = 'a] by simp
  qed
  ultimately have zero: "coeff rem k = 0" for k
    by (intro roots_bound [of ?S]) simp_all
  have "rem ! x = 0" if "x < length rem" for x
    using zero [of x] that by (simp add: coeff_def)
  then have "find (\<lambda>x. rem ! x \<noteq> 0) [0..<length rem] = None"
    by (simp add: find_upt_None)
  then have "computeDivisorPoly ht ?t = Inr h"
    using div by (simp add: computeDivisorPoly_def)
  moreover have "evalPoly rem x = 0" for x
    using zero by (intro evalPoly_zero) simp
  ultimately show ?thesis
    using len_h ev by (simp add: length_tPoly)
qed

subsection \<open>The verification equation\<close>

lemma groth16_identity:
  fixes alpha :: "'a::field"
  assumes g: "invGamma * gamma = 1" and d: "invDelta * delta = 1"
    and QP: "Q + P = beta * AU + alpha * AV + AW"
    and HT: "H * T = AU * AV - AW"
  shows "- (alpha + AU + delta * r) * (beta + AV + delta * s) + alpha * beta +
         (Q * invGamma) * gamma +
         (P * invDelta + H * T * invDelta + (alpha + AU + delta * r) * s +
            (beta + AV + delta * s) * r - delta * (r * s)) * delta = 0"
proof -
  have 1: "(Q * invGamma) * gamma = Q"
    using g by (simp add: mult.assoc)
  have 2: "(P * invDelta + H * T * invDelta + X) * delta = P + H * T + X * delta" for X
    using d by (simp add: distrib_right mult.assoc)
  have 3: "P * invDelta + H * T * invDelta + (alpha + AU + delta * r) * s +
            (beta + AV + delta * s) * r - delta * (r * s) =
           P * invDelta + H * T * invDelta + ((alpha + AU + delta * r) * s +
            (beta + AV + delta * s) * r - delta * (r * s))"
    by simp
  have 4: "P = beta * AU + alpha * AV + AW - Q"
    using QP by (simp add: algebra_simps)
  have 5: "delta * invDelta = 1"
    using d by (simp add: mult.commute)
  show ?thesis
    unfolding 1 3 2 HT
    by (simp add: 4 5 algebra_simps)
qed


lemma r1cs_satisfiedD:
  assumes "r1cs_satisfied A B C s" "k < length A"
  shows "r1cs_dot (A ! k) s * r1cs_dot (B ! k) s = r1cs_dot (C ! k) s"
  using assms by (simp add: r1cs_satisfied_def list_all_iff)

text \<open>
  Completeness of the pipeline away from the degenerate circuits: for a rectangular
  R1CS with at least two constraints and at least one private variable, whose
  evaluation points \<open>1..m\<close> are pairwise distinct in the field (in the scalar field of
  BLS12-381 this holds for every \<open>m\<close> below its order), a witness that satisfies
  it, and non-zero \<open>gamma\<close> and \<open>delta\<close>, the pipeline returns true for every choice of
  \<open>tau\<close>, \<open>alpha\<close>, \<open>beta\<close>, \<open>r\<close> and \<open>s\<close>. This is the statement on the inputs that the
  missing initial values of the folds do not reach.
\<close>

theorem groth16_completeness:
  fixes A B C :: "'a::field list list"
  assumes m2: "2 \<le> length A" and lenB: "length B = length A" and lenC: "length C = length A"
    and rect: "\<forall>row \<in> set A \<union> set B \<union> set C. length row = n"
    and priv: "l + 2 \<le> n"
    and wit: "length witness + 1 = n"
    and pts: "inj_on (of_nat :: nat \<Rightarrow> 'a) {1..length A}"
    and nz: "gamma \<noteq> 0" "delta \<noteq> 0"
    and sat: "r1cs_satisfied A B C (1 # witness)"
  shows "compute_and_verify_proof l A B C witness tau alpha beta gamma delta r s = Inr True"
proof -
  define m where "m = length A"
  define sv where "sv = 1 # witness"
  have m: "2 \<le> m" and n: "0 < n" and len_sv: "length sv = n"
    using m2 priv wit by (simp_all add: m_def sv_def)
  have neA: "A \<noteq> []"
    using m2 by auto
  obtain U V W where qap_res: "fromR1csToQap l A B C = Inr \<lparr> qap_l = l, qap_u = U, qap_v = V, qap_w = W \<rparr>"
    and lenU: "length U = n" and lenV: "length V = n" and lenW: "length W = n"
    and polys: "\<forall>i < n. length (U ! i) = m \<and> length (V ! i) = m \<and> length (W ! i) = m \<and>
              (\<forall>k < m. evalPoly (U ! i) (of_nat (k + 1)) = A ! k ! i \<and>
                        evalPoly (V ! i) (of_nat (k + 1)) = B ! k ! i \<and>
                        evalPoly (W ! i) (of_nat (k + 1)) = C ! k ! i)"
    unfolding m_def using fromR1csToQap_ok [OF neA lenB lenC rect n pts, of l] by blast
  define qap where "qap = \<lparr> qap_l = l, qap_u = U, qap_v = V, qap_w = W \<rparr>"
  have q [simp]: "qap_l qap = l" "qap_u qap = U" "qap_v qap = V" "qap_w qap = W"
    by (simp_all add: qap_def)
  have neU: "U \<noteq> []"
    using lenU n by auto
  have lenU0: "length (U ! 0) = m"
    using polys n by simp

  define cI where "cI i = beta * evalPoly (U ! i) tau + alpha * evalPoly (V ! i) tau +
                evalPoly (W ! i) tau" for i
  define tT where "tT = evalPoly (tPoly m) tau"
  define ts where "ts = \<lparr> power_ts = m,
          tauG1 = map (\<lambda>i. PointG1 (tau ^ i)) [0..<m],
          tauG2 = map (\<lambda>i. PointG2 (tau ^ i)) [0..<m],
          alphaG1 = PointG1 alpha, betaG1 = PointG1 beta, betaG2 = PointG2 beta,
          gammaG2 = PointG2 gamma, deltaG1 = PointG1 delta, deltaG2 = PointG2 delta,
          cTauPublicG1 = map (\<lambda>i. PointG1 (cI i * inverse gamma)) [0..<l + 1],
          cTauPrivateG1 = map (\<lambda>i. PointG1 (cI i * inverse delta)) [l + 1..<n],
          tTauInvDeltaG1 = map (\<lambda>i. PointG1 (tau ^ i * tT * inverse delta)) [0..<m] \<rparr>"
  have "min (l + 1) n = l + 1"
    using priv by simp
  then have setup_res: "trustedSetup qap tau alpha beta gamma delta = Inr ts"
    using trustedSetup_ok [of qap gamma delta tau alpha beta] neU lenU lenV lenW nz
    by (simp add: ts_def cI_def tT_def lenU0)

  have rows_len: "foldl max 0 (map length P) = m"
    if "length P = n" "\<forall>i < n. length (P ! i) = m" for P :: "'a list list"
  proof (rule foldl_max_const)
    show "map length P \<noteq> []"
      using that(1) n by auto
    show "\<forall>x \<in> set (map length P). x = m"
      using that by (auto simp: in_set_conv_nth)
    show "0 \<le> m"
      by simp
  qed
  obtain au where au: "combineRows sv [] (zip U [0..<length U]) = Inr au"
    and len_au: "length au = m"
    and co_au: "\<forall>k. coeff au k = (\<Sum>i<n. sv ! i * coeff (U ! i) k)"
    using combineRows_zip [of U sv] rows_len [of U] polys lenU len_sv by auto
  obtain av where av: "combineRows sv [] (zip V [0..<length V]) = Inr av"
    and len_av: "length av = m"
    and co_av: "\<forall>k. coeff av k = (\<Sum>i<n. sv ! i * coeff (V ! i) k)"
    using combineRows_zip [of V sv] rows_len [of V] polys lenV len_sv by auto
  obtain aw where aw: "combineRows sv [] (zip W [0..<length W]) = Inr aw"
    and len_aw: "length aw = m"
    and co_aw: "\<forall>k. coeff aw k = (\<Sum>i<n. sv ! i * coeff (W ! i) k)"
    using combineRows_zip [of W sv] rows_len [of W] polys lenW len_sv by auto
  have ev_au: "evalPoly au x = (\<Sum>i<n. sv ! i * evalPoly (U ! i) x)" for x
    using co_au len_au polys by (intro evalPoly_lincomb [where N = m]) simp_all
  have ev_av: "evalPoly av x = (\<Sum>i<n. sv ! i * evalPoly (V ! i) x)" for x
    using co_av len_av polys by (intro evalPoly_lincomb [where N = m]) simp_all
  have ev_aw: "evalPoly aw x = (\<Sum>i<n. sv ! i * evalPoly (W ! i) x)" for x
    using co_aw len_aw polys by (intro evalPoly_lincomb [where N = m]) simp_all
  define ht where "ht = subPolys (mulPolys au av) aw"
  have ev_ht: "evalPoly ht x = evalPoly au x * evalPoly av x - evalPoly aw x" for x
    by (simp add: ht_def evalPoly_subPolys evalPoly_mulPolys)
  have len_ht: "length ht = m + m - 1"
    using m by (simp add: ht_def length_subPolys length_mulPolys len_au len_av len_aw)
  have vanish: "\<forall>k \<in> {1..m}. evalPoly ht (of_nat k) = 0"
  proof
    fix k assume "k \<in> {1..m}"
    then obtain k' where k': "k = k' + 1" "k' < m"
      by (cases k) auto
    have rowA: "length (A ! k') = n" and rowB: "length (B ! k') = n" and rowC: "length (C ! k') = n"
      using rect k'(2) lenB lenC by (simp_all add: m_def)
    have "evalPoly au (of_nat k) = r1cs_dot (A ! k') sv"
      unfolding ev_au r1cs_dot_def rowA k'(1)
      using polys k'(2) by (intro sum.cong refl) (simp add: mult.commute)
    moreover have "evalPoly av (of_nat k) = r1cs_dot (B ! k') sv"
      unfolding ev_av r1cs_dot_def rowB k'(1)
      using polys k'(2) by (intro sum.cong refl) (simp add: mult.commute)
    moreover have "evalPoly aw (of_nat k) = r1cs_dot (C ! k') sv"
      unfolding ev_aw r1cs_dot_def rowC k'(1)
      using polys k'(2) by (intro sum.cong refl) (simp add: mult.commute)
    moreover have "r1cs_dot (A ! k') sv * r1cs_dot (B ! k') sv = r1cs_dot (C ! k') sv"
      using sat k'(2) unfolding sv_def m_def by (rule r1cs_satisfiedD)
    ultimately show "evalPoly ht (of_nat k) = 0"
      by (simp add: ev_ht)
  qed
  have "find (\<lambda>i. evalPoly ht (of_nat i) \<noteq> 0) [1..<Suc m] = None"
    by (rule iffD2 [OF find_upt_None]) (use vanish in auto)
  then have sol: "computeSolutionPoly sv qap = Inr (au, av, ht)"
    unfolding ht_def
    using au av aw neU by (simp add: computeSolutionPoly_def Let_def lenU0 del: upt_Suc)

  have ne_au: "au \<noteq> []" and ne_av: "av \<noteq> []"
    using len_au len_av m by auto
  have sumA: "scalarsFoldG1 (tauG1 ts) au = Inr (PointG1 (evalPoly au tau))"
    using scalarsFoldG1_map [OF ne_au, of m 0 "\<lambda>i. tau ^ i"] len_au
    by (simp add: ts_def evalPoly_sum mult.commute)
  have sumBG1: "scalarsFoldG1 (tauG1 ts) av = Inr (PointG1 (evalPoly av tau))"
    using scalarsFoldG1_map [OF ne_av, of m 0 "\<lambda>i. tau ^ i"] len_av
    by (simp add: ts_def evalPoly_sum mult.commute)
  have sumBG2: "scalarsFoldG2 (tauG2 ts) av = Inr (PointG2 (evalPoly av tau))"
    using scalarsFoldG2_map [OF ne_av, of m 0 "\<lambda>i. tau ^ i"] len_av
    by (simp add: ts_def evalPoly_sum mult.commute)

  obtain h where h: "computeDivisorPoly ht (tPoly m) = Inr h"
    and len_h: "length h = length ht - m"
    and ev_h: "\<forall>x. evalPoly ht x = evalPoly h x * evalPoly (tPoly m) x"
    using computeDivisorPoly_exact [OF _ vanish] pts unfolding m_def by blast
  have len_h': "length h = m - 1"
    using len_h len_ht by simp
  have ne_h: "h \<noteq> []"
    using len_h' m by auto
  have "(\<Sum>i<length h. tau ^ i * tT * inverse delta * h ! i) =
        (\<Sum>i<length h. (h ! i * tau ^ i) * (tT * inverse delta))"
    by (intro sum.cong refl) (simp add: mult_ac)
  also have "\<dots> = (\<Sum>i<length h. h ! i * tau ^ i) * (tT * inverse delta)"
    by (rule sum_distrib_right [symmetric])
  finally have "(\<Sum>i<length h. tau ^ i * tT * inverse delta * h ! i) =
        evalPoly h tau * tT * inverse delta"
    by (simp add: evalPoly_sum mult.assoc)
  then have htTau: "scalarsFoldG1 (tTauInvDeltaG1 ts) h =
      Inr (PointG1 (evalPoly h tau * tT * inverse delta))"
    using scalarsFoldG1_map [OF ne_h, of m 0 "\<lambda>i. tau ^ i * tT * inverse delta"] len_h'
    by (simp add: ts_def)

  define P where "P = (\<Sum>i<n - (l + 1). cI (l + 1 + i) * sv ! (l + 1 + i))"
  define Q where "Q = (\<Sum>i<l + 1. cI i * sv ! i)"
  have ne_priv: "drop (l + 1) sv \<noteq> []"
    using priv len_sv by simp
  have "(\<Sum>i<length (drop (l + 1) sv). cI (l + 1 + i) * inverse delta * drop (l + 1) sv ! i) =
        P * inverse delta"
    unfolding P_def sum_distrib_right
    using len_sv by (intro sum.cong) (simp_all add: mult_ac)
  then have sumC: "scalarsFoldG1 (cTauPrivateG1 ts) (drop (l + 1) sv) = Inr (PointG1 (P * inverse delta))"
    using scalarsFoldG1_map [OF ne_priv, of n "l + 1" "\<lambda>i. cI i * inverse delta"] len_sv
    by (simp add: ts_def)
  have pub_gen: "pointsFoldG1 (cTauPublicG1 ts) ss = Inr (PointG1 (Q * inverse gamma))"
    if "l + 1 \<le> length ss" "\<forall>i < l + 1. ss ! i = sv ! i" for ss
  proof -
    have "(\<Sum>i<l + 1. cI i * inverse gamma * ss ! i) = Q * inverse gamma"
      unfolding Q_def sum_distrib_right
      using that(2) by (intro sum.cong refl) (simp add: mult_ac)
    then show ?thesis
      using pointsFoldG1_map [of 0 "l + 1" ss "\<lambda>i. cI i * inverse gamma"] that(1)
      by (simp add: ts_def)
  qed
  have pub: "pointsFoldG1 (cTauPublicG1 ts) sv = Inr (PointG1 (Q * inverse gamma))"
    using priv len_sv by (intro pub_gen) simp_all
  have pub': "pointsFoldG1 (cTauPublicG1 ts) (1 # take l witness) = Inr (PointG1 (Q * inverse gamma))"
  proof (rule pub_gen)
    show "l + 1 \<le> length (1 # take l witness)"
      using priv wit by simp
    show "\<forall>i < l + 1. (1 # take l witness) ! i = sv ! i"
      by (auto simp: sv_def nth_Cons split: nat.splits)
  qed

  define a where "a = alpha + evalPoly au tau + delta * r"
  define b where "b = beta + evalPoly av tau + delta * s"
  define c where "c = P * inverse delta + evalPoly h tau * tT * inverse delta + a * s + b * r -
                      delta * (r * s)"
  define vk where "vk = \<lparr> vk_alphaG1 = PointG1 alpha, vk_betaG2 = PointG2 beta,
      vk_gammaG2 = PointG2 gamma, vk_deltaG2 = PointG2 delta,
      vk_cTauPublicG1 = cTauPublicG1 ts \<rparr>"
  have fields: "alphaG1 ts = PointG1 alpha" "betaG1 ts = PointG1 beta" "betaG2 ts = PointG2 beta"
    "gammaG2 ts = PointG2 gamma" "deltaG1 ts = PointG1 delta" "deltaG2 ts = PointG2 delta"
    by (simp_all add: ts_def)
  have prove_res: "prove ts qap witness False r s = Inr ((PointG1 a, PointG1 c, PointG2 b), vk)"
    unfolding prove_def Let_def sv_def [symmetric] sol ebind_Inr prod.case q lenU0
      sumA sumBG1 sumBG2 h htTau sumC pub fields
    by (simp add: a_def b_def c_def vk_def)

  have QP: "Q + P = beta * evalPoly au tau + alpha * evalPoly av tau + evalPoly aw tau"
  proof -
    have "P = (\<Sum>i = l + 1..<n. cI i * sv ! i)"
    proof -
      have "(\<Sum>i = l + 1..<n. cI i * sv ! i) = (\<Sum>i = 0 + (l + 1)..<(n - (l + 1)) + (l + 1). cI i * sv ! i)"
        using priv by simp
      also have "\<dots> = (\<Sum>i = 0..<n - (l + 1). cI (i + (l + 1)) * sv ! (i + (l + 1)))"
        by (rule sum.shift_bounds_nat_ivl)
      finally show ?thesis
        by (simp add: P_def atLeast0LessThan add.commute)
    qed
    moreover have "Q = (\<Sum>i = 0..<l + 1. cI i * sv ! i)"
      by (simp add: Q_def atLeast0LessThan)
    moreover have "(\<Sum>i = 0..<l + 1. cI i * sv ! i) + (\<Sum>i = l + 1..<n. cI i * sv ! i) =
                   (\<Sum>i = 0..<n. cI i * sv ! i)"
      by (rule sum.atLeastLessThan_concat) (use priv in simp_all)
    ultimately have "Q + P = (\<Sum>i = 0..<n. cI i * sv ! i)"
      by (simp only:)
    also have "\<dots> = (\<Sum>i<n. beta * (sv ! i * evalPoly (U ! i) tau) +
                        alpha * (sv ! i * evalPoly (V ! i) tau) + sv ! i * evalPoly (W ! i) tau)"
      unfolding atLeast0LessThan by (intro sum.cong refl) (simp add: cI_def algebra_simps)
    also have "\<dots> = beta * evalPoly au tau + alpha * evalPoly av tau + evalPoly aw tau"
      by (simp add: sum.distrib sum_distrib_left [symmetric] ev_au ev_av ev_aw)
    finally show ?thesis .
  qed
  have HT: "evalPoly h tau * tT = evalPoly au tau * evalPoly av tau - evalPoly aw tau"
    using ev_h ev_ht by (simp add: tT_def)
  have "- (alpha + evalPoly au tau + delta * r) * (beta + evalPoly av tau + delta * s) + alpha * beta +
         (Q * inverse gamma) * gamma +
         (P * inverse delta + evalPoly h tau * tT * inverse delta +
            (alpha + evalPoly au tau + delta * r) * s +
            (beta + evalPoly av tau + delta * s) * r - delta * (r * s)) * delta = 0"
    using nz QP HT by (intro groth16_identity) simp_all
  then have pairing: "validatePairing [G1_neg (PointG1 a), PointG1 alpha, PointG1 (Q * inverse gamma), PointG1 c]
      [PointG2 b, PointG2 beta, PointG2 gamma, PointG2 delta]"
    by (simp add: validatePairing_def a_def b_def c_def add.assoc)
  have "length (1 # take l witness) = length (vk_cTauPublicG1 vk)"
    using priv wit by (simp add: vk_def ts_def)
  then have verify_res: "verify (PointG1 a, PointG1 c, PointG2 b) (take l witness) vk = Inr True"
    unfolding verify_def Let_def prod.case
    using pub' pairing by (simp add: vk_def)
  show ?thesis
    unfolding compute_and_verify_proof_def qap_res qap_def [symmetric] ebind_Inr setup_res
      prove_res prod.case
    by (rule verify_res)
qed


text \<open>The instance of the repository's test "compute and verify proof".\<close>

theorem groth16_completeness_witness:
  "compute_and_verify_proof 1
     [[0, 1, 0, 0, 0, 0], [0, 0, 0, 1, 0, 0], [0, 1, 0, 0, 1, 0], [5, 0, 0, 0, 0, 1 :: rat]]
     [[0, 1, 0, 0, 0, 0], [0, 1, 0, 0, 0, 0], [1, 0, 0, 0, 0, 0], [1, 0, 0, 0, 0, 0]]
     [[0, 0, 0, 1, 0, 0], [0, 0, 0, 0, 1, 0], [0, 0, 0, 0, 0, 1], [0, 0, 1, 0, 0, 0]]
     [3, 35, 9, 27, 30] 7 11 13 17 19 23 29 = Inr True"
proof (rule groth16_completeness [where n = 6])
  show "r1cs_satisfied
     [[0, 1, 0, 0, 0, 0], [0, 0, 0, 1, 0, 0], [0, 1, 0, 0, 1, 0], [5, 0, 0, 0, 0, 1 :: rat]]
     [[0, 1, 0, 0, 0, 0], [0, 1, 0, 0, 0, 0], [1, 0, 0, 0, 0, 0], [1, 0, 0, 0, 0, 0]]
     [[0, 0, 0, 1, 0, 0], [0, 0, 0, 0, 1, 0], [0, 0, 0, 0, 0, 1], [0, 0, 1, 0, 0, 0]]
     (1 # [3, 35, 9, 27, 30])"
    by code_simp
  show "inj_on (of_nat :: nat \<Rightarrow> rat)
     {1..length [[0, 1, 0, 0, 0, 0], [0, 0, 0, 1, 0, 0], [0, 1, 0, 0, 1, 0], [5, 0, 0, 0, 0, 1 :: rat]]}"
    by (simp add: inj_on_def)
qed simp_all

section \<open>The pipeline on the degenerate circuits\<close>

lemma map_err_InrD:
  assumes "map_err f xs = Inr ys"
  shows "length ys = length xs \<and> (\<forall>i < length xs. f (xs ! i) = Inr (ys ! i))"
  using assms
proof (induction xs arbitrary: ys)
  case Nil
  then show ?case by simp
next
  case (Cons x xs)
  obtain y ys' where y: "f x = Inr y" and ys': "map_err f xs = Inr ys'" and ys: "ys = y # ys'"
    using Cons.prems by (auto split: sum.splits)
  have "length ys' = length xs \<and> (\<forall>i < length xs. f (xs ! i) = Inr (ys' ! i))"
    using ys' by (rule Cons.IH)
  then show ?case
    using y ys by (auto simp: nth_Cons split: nat.splits)
qed

lemma interpolate_length:
  assumes "interpolate xs ys = Inr p"
  shows "length p = length xs"
  using assms
  by (auto simp: interpolate_def Let_def ebind_def length_accumulate_outer
      split: if_splits sum.splits)

lemma transpose_matrix_rows:
  assumes "transpose_matrix M = Inr Mt"
  shows "\<forall>row \<in> set Mt. length row = length M"
  using assms by (auto simp: transpose_matrix_def Let_def split: if_splits)

lemma pipeline_single_constraint_error:
  fixes A B C :: "'a::field list list"
  assumes "length A = 1"
  shows "\<exists>e. compute_and_verify_proof l A B C witness tau alpha beta gamma delta r s = Inl e"
proof (cases "fromR1csToQap l A B C")
  case (Inl e)
  then show ?thesis
    by (simp add: compute_and_verify_proof_def)
next
  case (Inr qap)
  obtain A_t B_t C_t where tA: "transpose_matrix A = Inr A_t"
    and ne: "A_t \<noteq> []"
    and rest: "ebind (map_err (interpolate (map (\<lambda>i. of_nat (i + 1)) [0..<length (A_t ! 0)])) A_t) (\<lambda>Upolys.
         ebind (map_err (interpolate (map (\<lambda>i. of_nat (i + 1)) [0..<length (A_t ! 0)])) B_t) (\<lambda>Vpolys.
         ebind (map_err (interpolate (map (\<lambda>i. of_nat (i + 1)) [0..<length (A_t ! 0)])) C_t) (\<lambda>Wpolys.
           Inr \<lparr> qap_l = l, qap_u = Upolys, qap_v = Vpolys, qap_w = Wpolys \<rparr>))) = Inr qap"
    using Inr unfolding fromR1csToQap_def Let_def
    by (auto simp: ebind_def split: sum.splits if_splits)
  let ?xs = "map (\<lambda>i. of_nat (i + 1) :: 'a) [0..<length (A_t ! 0)]"
  obtain U V W where U: "map_err (interpolate ?xs) A_t = Inr U"
    and V: "map_err (interpolate ?xs) B_t = Inr V"
    and W: "map_err (interpolate ?xs) C_t = Inr W"
    and qap: "qap = \<lparr> qap_l = l, qap_u = U, qap_v = V, qap_w = W \<rparr>"
    using rest by (auto simp: ebind_def split: sum.splits)
  have "length (A_t ! 0) = 1"
    using transpose_matrix_rows [OF tA] ne assms by (cases A_t) simp_all
  then have len_xs: "length ?xs = 1"
    by simp
  have rows: "\<forall>p \<in> set P. length p = 1" if "map_err (interpolate ?xs) M = Inr P" for M P
  proof
    fix p assume "p \<in> set P"
    then obtain i where "i < length P" "p = P ! i"
      by (auto simp: in_set_conv_nth)
    then have "interpolate ?xs (M ! i) = Inr p"
      using map_err_InrD [OF that] by simp
    then show "length p = 1"
      using interpolate_length len_xs by metis
  qed
  have "U \<noteq> []"
    using map_err_InrD [OF U] ne by auto
  then have "length (qap_u qap ! 0) = 1"
    using rows [OF U] by (cases U) (simp_all add: qap)
  moreover have "\<forall>row \<in> set (qap_u qap) \<union> set (qap_v qap) \<union> set (qap_w qap). length row \<le> 1"
    using rows [OF U] rows [OF V] rows [OF W] by (auto simp: qap)
  ultimately have fails: "\<exists>e. prove ts qap witness False r s = Inl e" for ts
    by (rule prove_degree_0_error)
  show ?thesis
  proof (cases "trustedSetup qap tau alpha beta gamma delta")
    case (Inl e)
    then show ?thesis
      using Inr by (simp add: compute_and_verify_proof_def)
  next
    case ts: (Inr ts)
    obtain e where "prove ts qap witness False r s = Inl e"
      using fails by blast
    then show ?thesis
      using Inr ts by (simp add: compute_and_verify_proof_def)
  qed
qed

text \<open>
  Claim C1. The pipeline of R1CS to QAP, setup, prove and verify does not return true
  on every satisfied R1CS: on every R1CS with a single constraint it ends in an
  error, whatever the other matrices, the witness, the field and the randomness. The
  witness below is a satisfied single-constraint instance, where the error is the
  \<^verbatim>\<open>TypeError\<close> of the reduce over the empty quotient.
\<close>

theorem pipeline_fails_on_single_constraint:
  fixes A B C :: "'a::field list list"
  assumes "length A = 1"
  shows "\<exists>e. compute_and_verify_proof l A B C witness tau alpha beta gamma delta r s = Inl e"
  using assms by (rule pipeline_single_constraint_error)

text \<open>
  Three runs of the pipeline: a satisfied single-constraint instance; a satisfied
  two-constraint instance all of whose variables are public (\<open>l = n - 1\<close>), where the
  private part of the witness is empty and the reduce of \<^verbatim>\<open>sumC\<close> has no initial
  value; and the same two-constraint instance with one private variable.
\<close>

lemma pipeline_degenerate_examples:
  "r1cs_satisfied [[0, 1, 0]] [[1, 0, 0]] [[0, 0, 1 :: rat]] [1, 3, 3]"
  "compute_and_verify_proof 1 [[0, 1, 0]] [[1, 0, 0]] [[0, 0, 1 :: rat]] [3, 3]
     7 11 13 17 19 23 29 = Inl TypeError"
  "r1cs_satisfied [[0, 1, 0], [0, 1, 0]] [[1, 0, 0], [0, 1, 0]] [[0, 0, 1], [0, 3, 0 :: rat]] [1, 3, 3]"
  "compute_and_verify_proof 2 [[0, 1, 0], [0, 1, 0]] [[1, 0, 0], [0, 1, 0]] [[0, 0, 1], [0, 3, 0 :: rat]]
     [3, 3] 7 11 13 17 19 23 29 = Inl TypeError"
  "compute_and_verify_proof 1 [[0, 1, 0], [0, 1, 0]] [[1, 0, 0], [0, 1, 0]] [[0, 0, 1], [0, 3, 0 :: rat]]
     [3, 3] 7 11 13 17 19 23 29 = Inr True"
  by code_simp+

theorem pipeline_fails_on_single_constraint_witness:
  "length [[0, 1, 0 :: rat]] = 1 \<and>
   r1cs_satisfied [[0, 1, 0]] [[1, 0, 0]] [[0, 0, 1 :: rat]] [1, 3, 3] \<and>
   compute_and_verify_proof 1 [[0, 1, 0]] [[1, 0, 0]] [[0, 0, 1 :: rat]] [3, 3]
     7 11 13 17 19 23 29 = Inl TypeError"
  using pipeline_fails_on_single_constraint [of "[[0, 1, 0 :: rat]]" 1 "[[1, 0, 0]]" "[[0, 0, 1]]"
      "[3, 3]" 7 11 13 17 19 23 29]
    pipeline_degenerate_examples(1,2)
  by simp


end
